theory Spec2Isabelle
  imports Main
begin

section \<open>Graph model\<close>

text \<open>
  The functions of \<^verbatim>\<open>mo/utils/graph.py\<close> walk a networkx \<^verbatim>\<open>MultiDiGraph\<close> whose nodes
  are named by strings and carry an attribute dictionary. Of the attributes only
  \<^verbatim>\<open>kind\<close>, \<^verbatim>\<open>op\<close> and \<^verbatim>\<open>value\<close> are read; an absent (or \<^verbatim>\<open>None\<close>) attribute is
  \<open>None\<close>. The transient attribute \<^verbatim>\<open>prev\<close> is kept apart, as a map that the extraction
  passes along. The graph is the list of its nodes and the list of its edges, both in
  insertion order, parallel edges included.
\<close>

type_synonym node_id = string

record node_attrs =
  kind :: string
  op :: "string option"
  val :: "int list option"

record graph =
  nodes :: "(node_id \<times> node_attrs) list"
  edges :: "(node_id \<times> node_id) list"

definition node_names :: "graph \<Rightarrow> node_id list" where
  "node_names g = map fst (nodes g)"

definition out_edges :: "graph \<Rightarrow> node_id \<Rightarrow> (node_id \<times> node_id) list" where
  "out_edges g n = filter (\<lambda>e. fst e = n) (edges g)"

definition in_edges :: "graph \<Rightarrow> node_id \<Rightarrow> (node_id \<times> node_id) list" where
  "in_edges g n = filter (\<lambda>e. snd e = n) (edges g)"

text \<open>\<^verbatim>\<open>graph.node[n].get('op', '')\<close>: the op tag of a node, \<open>None\<close> when it has none.\<close>

definition node_op :: "graph \<Rightarrow> node_id \<Rightarrow> string option" where
  "node_op g n = (case map_of (nodes g) n of None \<Rightarrow> None | Some a \<Rightarrow> op a)"

text \<open>
  Modelled from the spec: the node handle \<^verbatim>\<open>mo.graph.graph.Node\<close> is not part of the
  sources at hand. The specification requires of it the id, the kind tag, accessors for
  \<^verbatim>\<open>op\<close> and \<^verbatim>\<open>value\<close>, and indexed access to the direct predecessors; a handle is
  modelled by the node's name, and the predecessors are the sources of the incoming
  edges, one per edge, in edge order.
\<close>

definition node_kind :: "graph \<Rightarrow> node_id \<Rightarrow> string" where
  "node_kind g n = (case map_of (nodes g) n of None \<Rightarrow> [] | Some a \<Rightarrow> kind a)"

definition node_val :: "graph \<Rightarrow> node_id \<Rightarrow> int list option" where
  "node_val g n = (case map_of (nodes g) n of None \<Rightarrow> None | Some a \<Rightarrow> val a)"

definition in_nodes :: "graph \<Rightarrow> node_id \<Rightarrow> node_id list" where
  "in_nodes g n = map fst (in_edges g n)"

text \<open>Every node name that occurs as an endpoint of an edge.\<close>

definition endpoints :: "graph \<Rightarrow> node_id set" where
  "endpoints g = fst ` set (edges g) \<union> snd ` set (edges g)"

text \<open>
  A networkx graph keeps its nodes in a dictionary and creates the endpoints of every
  edge that is added: node names are unique and every endpoint is a node.
\<close>

definition wf_graph :: "graph \<Rightarrow> bool" where
  "wf_graph g \<longleftrightarrow> distinct (node_names g) \<and> endpoints g \<subseteq> set (node_names g)"

section \<open>Depth-first search\<close>

text \<open>
  \<^verbatim>\<open>dfs(graph, node_name, visited)\<close>. The stack is a list whose head is the top; the set
  \<^verbatim>\<open>visited\<close> is mutated by the source, so the model returns it with the order.
\<close>

function dfs_loop ::
  "graph \<Rightarrow> node_id list \<Rightarrow> node_id set \<Rightarrow> node_id list \<Rightarrow> node_id list \<times> node_id set"
where
  "dfs_loop g [] visited order = (order, visited)"
| "dfs_loop g (n # stack) visited order =
     (case find (\<lambda>c. c \<notin> insert n visited) (map snd (out_edges g n)) of
        Some c \<Rightarrow> dfs_loop g (c # n # stack) (insert n visited) order
      | None \<Rightarrow> dfs_loop g stack (insert n visited) (order @ [n]))"
  by pat_completeness auto

definition dfs_measure :: "graph \<Rightarrow> node_id list \<Rightarrow> node_id set \<Rightarrow> nat" where
  "dfs_measure g stack visited =
     3 * card ((endpoints g \<union> set stack) - visited) + length stack +
     (case stack of [] \<Rightarrow> 0 | t # _ \<Rightarrow> if t \<in> visited then 2 else 0)"

lemma finite_endpoints: "finite (endpoints g)"
  by (simp add: endpoints_def)

lemma out_edges_endpoints: "c \<in> snd ` set (out_edges g n) \<Longrightarrow> c \<in> endpoints g"
  by (auto simp: out_edges_def endpoints_def)

lemma in_edges_endpoints: "c \<in> fst ` set (in_edges g n) \<Longrightarrow> c \<in> endpoints g"
  by (auto simp: in_edges_def endpoints_def)

lemma find_SomeD: "find P xs = Some x \<Longrightarrow> P x \<and> x \<in> set xs"
  by (induction xs) (auto split: if_splits)

lemma dfs_measure_push:
  assumes "find (\<lambda>c. c \<notin> insert n visited) (map snd (out_edges g n)) = Some c"
  shows "dfs_measure g (c # n # stack) (insert n visited) < dfs_measure g (n # stack) visited"
proof -
  from find_SomeD[OF assms] have c: "c \<notin> insert n visited" "c \<in> endpoints g"
    by (auto intro: out_edges_endpoints)
  let ?A = "(endpoints g \<union> set (c # n # stack)) - insert n visited"
  let ?B = "(endpoints g \<union> set (n # stack)) - visited"
  have fin: "finite ?B" by (simp add: finite_endpoints)
  show ?thesis
  proof (cases "n \<in> visited")
    case True
    then have "?A = ?B" using c by auto
    then show ?thesis using True c by (simp add: dfs_measure_def insert_absorb)
  next
    case False
    then have "?A \<subset> ?B" using c by auto
    then have "card ?A < card ?B" using fin by (rule psubset_card_mono[rotated])
    then show ?thesis using False c by (simp add: dfs_measure_def)
  qed
qed

lemma dfs_measure_pop:
  "dfs_measure g stack (insert n visited) < dfs_measure g (n # stack) visited"
proof -
  let ?A = "(endpoints g \<union> set stack) - insert n visited"
  let ?B = "(endpoints g \<union> set (n # stack)) - visited"
  have fin: "finite ?B" by (simp add: finite_endpoints)
  have flag: "(case stack of [] \<Rightarrow> 0 | t # _ \<Rightarrow> if t \<in> insert n visited then 2 else 0) \<le> (2::nat)"
    by (simp split: list.split)
  show ?thesis
  proof (cases "n \<in> visited")
    case True
    then have "?A \<subseteq> ?B" by auto
    then have "card ?A \<le> card ?B" using fin by (rule card_mono[rotated])
    then show ?thesis using True flag by (simp add: dfs_measure_def)
  next
    case False
    then have "?A \<subset> ?B" by auto
    then have "card ?A < card ?B" using fin by (rule psubset_card_mono[rotated])
    then show ?thesis using False flag by (simp add: dfs_measure_def)
  qed
qed

termination dfs_loop
  by (relation "measure (\<lambda>(g, stack, visited, order). dfs_measure g stack visited)")
     (auto simp: dfs_measure_push dfs_measure_pop)

definition dfs :: "graph \<Rightarrow> node_id \<Rightarrow> node_id set \<Rightarrow> node_id list \<times> node_id set" where
  "dfs g node_name visited = dfs_loop g [node_name] visited []"

section \<open>Sub-graph between nodes\<close>

text \<open>
  The two fatal conditions of \<^verbatim>\<open>sub_graph_between_nodes\<close>: the payload of the first is the
  end node and the list of start nodes that the message embeds, that of the second the
  name of the offending node.
\<close>

datatype error =
  EndNodeNotReachable node_id "node_id list"
| ContainsInputNode node_id

text \<open>
  The body of both inner loops: an endpoint that is not yet visited is appended to the
  queue, marked visited and annotated with the node it was discovered from.
\<close>

type_synonym grow_state = "node_id list \<times> node_id set \<times> (node_id \<rightharpoonup> node_id)"

fun grow_add :: "node_id \<Rightarrow> node_id \<Rightarrow> grow_state \<Rightarrow> grow_state" where
  "grow_add cur x (d, visited, prev) =
     (if x \<notin> visited then (d @ [x], insert x visited, prev(x \<mapsto> cur)) else (d, visited, prev))"

definition grow_out :: "graph \<Rightarrow> node_id list \<Rightarrow> node_id \<Rightarrow> grow_state \<Rightarrow> grow_state" where
  "grow_out g end_nodes cur st =
     (if cur \<notin> set end_nodes then fold (grow_add cur) (map snd (out_edges g cur)) st else st)"

definition grow_in :: "graph \<Rightarrow> node_id list \<Rightarrow> node_id \<Rightarrow> grow_state \<Rightarrow> grow_state" where
  "grow_in g start_nodes cur st =
     fold (\<lambda>src s. if cur \<notin> set start_nodes then grow_add cur src s else s)
       (map fst (in_edges g cur)) st"

definition grow_measure :: "graph \<Rightarrow> grow_state \<Rightarrow> nat" where
  "grow_measure g st = (case st of (d, visited, prev) \<Rightarrow> 2 * card (endpoints g - visited) + length d)"

lemma grow_add_measure:
  assumes "x \<in> endpoints g"
  shows "grow_measure g (grow_add cur x st) \<le> grow_measure g st"
proof (cases st)
  case (fields d visited prev)
  show ?thesis
  proof (cases "x \<in> visited")
    case True
    then show ?thesis using fields by simp
  next
    case False
    have "endpoints g - insert x visited \<subset> endpoints g - visited"
      using False assms by auto
    then have "card (endpoints g - insert x visited) < card (endpoints g - visited)"
      by (rule psubset_card_mono[rotated]) (simp add: finite_endpoints)
    then show ?thesis using False fields by (simp add: grow_measure_def)
  qed
qed

lemma fold_grow_add_measure:
  "set xs \<subseteq> endpoints g \<Longrightarrow>
   grow_measure g (fold (\<lambda>x s. if b then grow_add cur x s else s) xs st) \<le> grow_measure g st"
proof (induction xs arbitrary: st)
  case Nil
  then show ?case by simp
next
  case (Cons x xs)
  have "grow_measure g (if b then grow_add cur x st else st) \<le> grow_measure g st"
    using Cons.prems grow_add_measure[of x g cur st] by simp
  moreover have "grow_measure g (fold (\<lambda>x s. if b then grow_add cur x s else s) xs
      (if b then grow_add cur x st else st)) \<le> grow_measure g (if b then grow_add cur x st else st)"
    using Cons.prems by (intro Cons.IH) simp
  ultimately show ?case by simp
qed

lemma grow_out_measure: "grow_measure g (grow_out g end_nodes cur st) \<le> grow_measure g st"
proof -
  have "set (map snd (out_edges g cur)) \<subseteq> endpoints g"
    using out_edges_endpoints by auto
  from fold_grow_add_measure[OF this, of True cur st] show ?thesis
    by (simp add: grow_out_def)
qed

lemma grow_in_measure: "grow_measure g (grow_in g start_nodes cur st) \<le> grow_measure g st"
proof -
  have "set (map fst (in_edges g cur)) \<subseteq> endpoints g"
    using in_edges_endpoints by auto
  from fold_grow_add_measure[OF this] show ?thesis
    by (simp add: grow_in_def)
qed

text \<open>
  The region-growth loop. The queue \<^verbatim>\<open>d\<close> is a list whose head is the next node to leave
  it; \<^verbatim>\<open>sub_graph_nodes\<close> is the last argument.
\<close>

function grow ::
  "graph \<Rightarrow> node_id list \<Rightarrow> node_id list \<Rightarrow> grow_state \<Rightarrow> node_id list \<Rightarrow>
   node_id list \<times> node_id set \<times> (node_id \<rightharpoonup> node_id)"
where
  "grow g start_nodes end_nodes ([], visited, prev) sub_graph_nodes =
     (sub_graph_nodes, visited, prev)"
| "grow g start_nodes end_nodes (cur # d, visited, prev) sub_graph_nodes =
     grow g start_nodes end_nodes
       (grow_in g start_nodes cur (grow_out g end_nodes cur (d, visited, prev)))
       (sub_graph_nodes @ [cur])"
  by pat_completeness auto

termination grow
proof (relation "measure (\<lambda>(g, start_nodes, end_nodes, st, sub_graph_nodes). grow_measure g st)")
  show "wf (measure (\<lambda>(g, start_nodes, end_nodes, st, sub_graph_nodes). grow_measure g st))"
    by simp
next
  fix g :: graph and start_nodes end_nodes :: "node_id list" and cur d visited
    and prev :: "node_id \<rightharpoonup> node_id" and sub_graph_nodes :: "node_id list"
  have "grow_measure g (grow_in g start_nodes cur (grow_out g end_nodes cur (d, visited, prev)))
      \<le> grow_measure g (d, visited, prev)"
    using grow_in_measure grow_out_measure le_trans by blast
  also have "\<dots> < grow_measure g (cur # d, visited, prev)"
    by (simp add: grow_measure_def)
  finally show "((g, start_nodes, end_nodes,
        grow_in g start_nodes cur (grow_out g end_nodes cur (d, visited, prev)),
        sub_graph_nodes @ [cur]),
       (g, start_nodes, end_nodes, (cur # d, visited, prev), sub_graph_nodes))
      \<in> measure (\<lambda>(g, start_nodes, end_nodes, st, sub_graph_nodes). grow_measure g st)"
    by simp
qed

text \<open>
  The diagnostic loop \<^verbatim>\<open>while cur_node and 'prev' in graph.node[cur_node]\<close>. Every node
  has the key \<^verbatim>\<open>prev\<close> once the attribute was reset, so the loop runs until
  \<^verbatim>\<open>cur_node\<close> is \<^verbatim>\<open>None\<close> or the empty string. Nothing in the loop itself bounds it:
  it returns \<open>None\<close> when it runs forever.
\<close>

partial_function (option) prev_path ::
  "(node_id \<rightharpoonup> node_id) \<Rightarrow> node_id option \<Rightarrow> node_id list \<Rightarrow> node_id list option"
where
  "prev_path prev cur_node path =
     (case cur_node of
        None \<Rightarrow> Some path
      | Some c \<Rightarrow> if c = [] then Some path else prev_path prev (prev c) (path @ [c]))"

text \<open>The forward-reachability pass: one \<^verbatim>\<open>dfs\<close> per start node, all into one set.\<close>

definition forward_visited :: "graph \<Rightarrow> node_id list \<Rightarrow> node_id set" where
  "forward_visited g start_nodes = fold (\<lambda>start_node fv. snd (dfs g start_node fv)) start_nodes {}"

definition grown :: "graph \<Rightarrow> node_id list \<Rightarrow> node_id list \<Rightarrow>
    node_id list \<times> node_id set \<times> (node_id \<rightharpoonup> node_id)" where
  "grown g start_nodes end_nodes =
     grow g start_nodes end_nodes (start_nodes, set start_nodes, Map.empty) []"

text \<open>
  \<^verbatim>\<open>sub_graph_between_nodes\<close>: \<open>Some (Inr ns)\<close> when it returns the list \<open>ns\<close>,
  \<open>Some (Inl e)\<close> when it raises, \<open>None\<close> when it does not return. The reconstructed path
  is only logged; the call raises once the path is complete.
\<close>

definition sub_graph_between_nodes ::
  "graph \<Rightarrow> node_id list \<Rightarrow> node_id list \<Rightarrow> (error + node_id list) option" where
  "sub_graph_between_nodes g start_nodes end_nodes =
     (case grown g start_nodes end_nodes of (sub_graph_nodes, visited, prev) \<Rightarrow>
        (case find (\<lambda>end_node. end_node \<notin> forward_visited g start_nodes) end_nodes of
           Some end_node \<Rightarrow> Some (Inl (EndNodeNotReachable end_node start_nodes))
         | None \<Rightarrow>
            (case find (\<lambda>node_name. node_op g node_name = Some ''Placeholder'') sub_graph_nodes of
               Some node_name \<Rightarrow>
                 (case prev_path prev (Some node_name) [] of
                    None \<Rightarrow> None
                  | Some path \<Rightarrow> Some (Inl (ContainsInputNode node_name)))
             | None \<Rightarrow> Some (Inr sub_graph_nodes))))"

section \<open>Backward search for an operation\<close>

text \<open>
  The body of the loop over the predecessors in \<^verbatim>\<open>backward_bfs_for_operation\<close>;
  \<^verbatim>\<open>pnode.has_valid('op') and pnode.op in op_names\<close> holds when the op tag is present
  and listed.
\<close>

fun bbfs_visit ::
  "graph \<Rightarrow> string list \<Rightarrow> node_id \<Rightarrow> node_id list \<times> node_id list \<Rightarrow> node_id list \<times> node_id list"
where
  "bbfs_visit g op_names pnode (q, ret) =
     (if node_kind g pnode = ''op'' then
        (if (case node_op g pnode of None \<Rightarrow> False | Some t \<Rightarrow> t \<in> set op_names) then
           (if pnode \<notin> set ret then (q, ret @ [pnode]) else (q, ret))
         else (q @ [pnode], ret))
      else if node_kind g pnode = ''data'' \<and> node_val g pnode = None then (q @ [pnode], ret)
      else (q, ret))"

text \<open>
  The \<^verbatim>\<open>while len(q) != 0\<close> loop. Nothing in it records the nodes that were already
  taken from the queue, so it is a partial function: \<open>None\<close> when the loop runs forever.
\<close>

partial_function (option) bbfs_loop ::
  "graph \<Rightarrow> string list \<Rightarrow> node_id list \<Rightarrow> node_id list \<Rightarrow> node_id list option"
where
  "bbfs_loop g op_names q ret =
     (case q of
        [] \<Rightarrow> Some ret
      | node # q' \<Rightarrow>
          (case fold (bbfs_visit g op_names) (in_nodes g node) (q', ret) of
             (q'', ret') \<Rightarrow> bbfs_loop g op_names q'' ret'))"

definition backward_bfs_for_operation :: "graph \<Rightarrow> node_id \<Rightarrow> string list \<Rightarrow> node_id list option" where
  "backward_bfs_for_operation g start_node op_names = bbfs_loop g op_names [start_node] []"

section \<open>Pseudo-topological sort\<close>

definition nodes_without_inputs :: "graph \<Rightarrow> node_id list" where
  "nodes_without_inputs g = filter (\<lambda>node_name. length (in_edges g node_name) = 0) (node_names g)"

definition pts_visit :: "graph \<Rightarrow> node_id \<Rightarrow> node_id list \<times> node_id set \<Rightarrow> node_id list \<times> node_id set" where
  "pts_visit g node_name st =
     (case st of (order, visited) \<Rightarrow>
        if node_name \<notin> visited then
          (case dfs g node_name visited of (found, visited') \<Rightarrow> (order @ found, visited'))
        else (order, visited))"

definition pseudo_topological_sort :: "graph \<Rightarrow> bool \<Rightarrow> node_id list" where
  "pseudo_topological_sort g reverse =
     (let order = fst (fold (pts_visit g) (nodes_without_inputs g) ([], {}))
      in if reverse then order else rev order)"

section \<open>Connected component\<close>

fun icc_add :: "node_id \<Rightarrow> node_id list \<times> node_id set \<Rightarrow> node_id list \<times> node_id set" where
  "icc_add adj_node (d, visited) =
     (if adj_node \<notin> visited then (d @ [adj_node], insert adj_node visited) else (d, visited))"

definition adj_nodes :: "graph \<Rightarrow> node_id list \<Rightarrow> node_id \<Rightarrow> node_id list" where
  "adj_nodes g names cur =
     filter (\<lambda>src_node. src_node \<in> set names) (map fst (in_edges g cur)) @
     filter (\<lambda>dst_node. dst_node \<in> set names) (map snd (out_edges g cur))"

definition icc_measure :: "graph \<Rightarrow> node_id list \<times> node_id set \<Rightarrow> nat" where
  "icc_measure g st = (case st of (d, visited) \<Rightarrow> 2 * card (endpoints g - visited) + length d)"

lemma icc_add_measure:
  assumes "x \<in> endpoints g"
  shows "icc_measure g (icc_add x st) \<le> icc_measure g st"
proof (cases st)
  case (Pair d visited)
  show ?thesis
  proof (cases "x \<in> visited")
    case True
    then show ?thesis using Pair by simp
  next
    case False
    have "endpoints g - insert x visited \<subset> endpoints g - visited"
      using False assms by auto
    then have "card (endpoints g - insert x visited) < card (endpoints g - visited)"
      by (rule psubset_card_mono[rotated]) (simp add: finite_endpoints)
    then show ?thesis using False Pair by (simp add: icc_measure_def)
  qed
qed

lemma fold_icc_add_measure:
  "set xs \<subseteq> endpoints g \<Longrightarrow> icc_measure g (fold icc_add xs st) \<le> icc_measure g st"
proof (induction xs arbitrary: st)
  case Nil
  then show ?case by simp
next
  case (Cons x xs)
  have "icc_measure g (fold icc_add xs (icc_add x st)) \<le> icc_measure g (icc_add x st)"
    using Cons.prems by (intro Cons.IH) simp
  also have "\<dots> \<le> icc_measure g st"
    using Cons.prems by (intro icc_add_measure) simp
  finally show ?case by simp
qed

lemma adj_nodes_endpoints: "set (adj_nodes g names cur) \<subseteq> endpoints g"
  by (auto simp: adj_nodes_def in_edges_def out_edges_def endpoints_def intro: rev_image_eqI)

function icc_loop :: "graph \<Rightarrow> node_id list \<Rightarrow> node_id list \<times> node_id set \<Rightarrow> node_id set" where
  "icc_loop g names ([], visited) = visited"
| "icc_loop g names (cur_node_name # d, visited) =
     icc_loop g names (fold icc_add (adj_nodes g names cur_node_name) (d, insert cur_node_name visited))"
  by pat_completeness auto

termination icc_loop
proof (relation "measure (\<lambda>(g, names, st). icc_measure g st)")
  show "wf (measure (\<lambda>(g, names, st). icc_measure g st))"
    by simp
next
  fix g :: graph and names :: "node_id list" and cur_node_name d visited
  have "icc_measure g (fold icc_add (adj_nodes g names cur_node_name) (d, insert cur_node_name visited))
      \<le> icc_measure g (d, insert cur_node_name visited)"
    by (rule fold_icc_add_measure) (rule adj_nodes_endpoints)
  also have "\<dots> < icc_measure g (cur_node_name # d, visited)"
  proof -
    have "card (endpoints g - insert cur_node_name visited) \<le> card (endpoints g - visited)"
      by (rule card_mono) (auto simp: finite_endpoints)
    then show ?thesis by (simp add: icc_measure_def)
  qed
  finally show "((g, names, fold icc_add (adj_nodes g names cur_node_name) (d, insert cur_node_name visited)),
       (g, names, (cur_node_name # d, visited)))
      \<in> measure (\<lambda>(g, names, st). icc_measure g st)"
    by simp
qed

definition is_connected_component :: "graph \<Rightarrow> node_id list \<Rightarrow> bool" where
  "is_connected_component g names =
     (case names of
        [] \<Rightarrow> True
      | first # _ \<Rightarrow> set names \<subseteq> icc_loop g names ([first], {first}))"

section \<open>Neighbourhood of a node\<close>

text \<open>
  The dictionary \<^verbatim>\<open>dist\<close> keeps its keys in insertion order, and the result lists them
  in that order: it is an association list with one entry per key. Reading a missing key
  raises \<^verbatim>\<open>KeyError\<close>.
\<close>

datatype lookup_error = KeyError node_id

definition setdefault :: "(node_id \<times> int) list \<Rightarrow> node_id \<Rightarrow> int \<Rightarrow> int \<times> (node_id \<times> int) list" where
  "setdefault dist k v = (case map_of dist k of None \<Rightarrow> (v, dist @ [(k, v)]) | Some w \<Rightarrow> (w, dist))"

fun dict_set :: "node_id \<Rightarrow> int \<Rightarrow> (node_id \<times> int) list \<Rightarrow> (node_id \<times> int) list" where
  "dict_set k v [] = [(k, v)]"
| "dict_set k v (e # dist) = (if fst e = k then (k, v) # dist else e # dict_set k v dist)"

type_synonym nn_state = "(node_id \<times> int) list \<times> node_id list"

fun nn_visit :: "int \<Rightarrow> int \<Rightarrow> node_id \<Rightarrow> nn_state \<Rightarrow> nn_state" where
  "nn_visit depth cur_dist next_node_name (dist, deq) =
     (case setdefault dist next_node_name (depth + 1) of
        (next_dist, dist') \<Rightarrow>
          if next_dist > cur_dist + 1
          then (dict_set next_node_name (cur_dist + 1) dist', deq @ [next_node_name])
          else (dist', deq))"

text \<open>
  The loop of \<^verbatim>\<open>node_neighbourhood\<close>. The neighbour function is any function of the
  caller, so the loop is defined as a partial function (\<open>None\<close>: it does not return).
\<close>

partial_function (option) nn_loop ::
  "(node_id \<Rightarrow> node_id list) \<Rightarrow> int \<Rightarrow> nn_state \<Rightarrow> (lookup_error + node_id list) option"
where
  "nn_loop next_node_fn depth st =
     (case st of
        (dist, []) \<Rightarrow> Some (Inr (map fst dist))
      | (dist, cur_node_name # deq) \<Rightarrow>
          (case map_of dist cur_node_name of
             None \<Rightarrow> Some (Inl (KeyError cur_node_name))
           | Some cur_dist \<Rightarrow>
               if cur_dist < depth
               then nn_loop next_node_fn depth
                      (fold (nn_visit depth cur_dist) (next_node_fn cur_node_name) (dist, deq))
               else nn_loop next_node_fn depth (dist, deq)))"

definition node_neighbourhood ::
  "node_id \<Rightarrow> int \<Rightarrow> (node_id \<Rightarrow> node_id list) \<Rightarrow> (lookup_error + node_id list) option" where
  "node_neighbourhood node_name depth next_node_fn =
     nn_loop next_node_fn depth ([(node_name, 0)], [node_name])"

definition node_incoming_neighbourhood ::
  "graph \<Rightarrow> node_id \<Rightarrow> int \<Rightarrow> (lookup_error + node_id list) option" where
  "node_incoming_neighbourhood g node_name depth =
     node_neighbourhood node_name depth (\<lambda>node_name. map fst (in_edges g node_name))"

definition node_outcoming_neighbourhood ::
  "graph \<Rightarrow> node_id \<Rightarrow> int \<Rightarrow> (lookup_error + node_id list) option" where
  "node_outcoming_neighbourhood g node_name depth =
     node_neighbourhood node_name depth (\<lambda>node_name. map snd (out_edges g node_name))"

section \<open>Example graphs\<close>

definition op_node :: "string \<Rightarrow> node_attrs" where
  "op_node t = \<lparr>kind = ''op'', op = Some t, val = None\<rparr>"

definition data_node :: "int list option \<Rightarrow> node_attrs" where
  "data_node v = \<lparr>kind = ''data'', op = None, val = v\<rparr>"

text \<open>The chain \<open>A \<rightarrow> B \<rightarrow> C \<rightarrow> D\<close>.\<close>

definition chain4 :: graph where
  "chain4 =
     \<lparr>nodes = [(''A'', op_node ''Relu''), (''B'', op_node ''Relu''),
               (''C'', op_node ''Relu''), (''D'', op_node ''Relu'')],
      edges = [(''A'', ''B''), (''B'', ''C''), (''C'', ''D'')]\<rparr>"

text \<open>\<open>A \<rightarrow> B\<close> with a side input \<open>W \<rightarrow> B\<close>.\<close>

definition side_input :: graph where
  "side_input =
     \<lparr>nodes = [(''A'', op_node ''Relu''), (''W'', op_node ''Const''), (''B'', op_node ''Add'')],
      edges = [(''A'', ''B''), (''W'', ''B'')]\<rparr>"




text \<open>
  A loop as it arises from a \<^verbatim>\<open>while\<close> of the source framework: \<open>Merge\<close> feeds
  \<open>NextIteration\<close> through a data node, and \<open>NextIteration\<close> feeds \<open>Merge\<close> back.
\<close>

definition merge_cycle :: graph where
  "merge_cycle =
     \<lparr>nodes = [(''Merge'', op_node ''Merge''), (''d1'', data_node None),
               (''Next'', op_node ''NextIteration''), (''d2'', data_node None)],
      edges = [(''Merge'', ''d1''), (''d1'', ''Next''), (''Next'', ''d2''), (''d2'', ''Merge'')]\<rparr>"

text \<open>Two chains apart from each other, \<open>A \<rightarrow> B\<close> and \<open>C \<rightarrow> D\<close>.\<close>

definition two_chains :: graph where
  "two_chains =
     \<lparr>nodes = [(''A'', op_node ''Relu''), (''B'', op_node ''Relu''),
               (''C'', op_node ''Relu''), (''D'', op_node ''Relu'')],
      edges = [(''A'', ''B''), (''C'', ''D'')]\<rparr>"

text \<open>\<open>A \<rightarrow> B\<close> with a network input \<open>P \<rightarrow> B\<close>.\<close>

definition placeholder_input :: graph where
  "placeholder_input =
     \<lparr>nodes = [(''P'', op_node ''Placeholder''), (''A'', op_node ''Relu''), (''B'', op_node ''Add'')],
      edges = [(''A'', ''B''), (''P'', ''B'')]\<rparr>"

text \<open>The chain \<open>A \<rightarrow> B \<rightarrow> C\<close>.\<close>

definition chain3 :: graph where
  "chain3 =
     \<lparr>nodes = [(''A'', op_node ''Relu''), (''B'', op_node ''Relu''), (''C'', op_node ''Relu'')],
      edges = [(''A'', ''B''), (''B'', ''C'')]\<rparr>"



text \<open>\<open>A \<rightarrow> B\<close> with a network input \<open>P \<rightarrow> B\<close> and a node \<open>Z\<close> apart.\<close>

definition placeholder_apart :: graph where
  "placeholder_apart =
     \<lparr>nodes = [(''P'', op_node ''Placeholder''), (''A'', op_node ''Relu''),
               (''B'', op_node ''Add''), (''Z'', op_node ''Relu'')],
      edges = [(''A'', ''B''), (''P'', ''B'')]\<rparr>"


text \<open>A diamond \<open>A \<rightarrow> B \<rightarrow> D\<close>, \<open>A \<rightarrow> C \<rightarrow> D\<close> with a second root \<open>R \<rightarrow> C\<close>.\<close>

definition diamond :: graph where
  "diamond =
     \<lparr>nodes = [(''D'', op_node ''Relu''), (''C'', op_node ''Relu''), (''R'', op_node ''Relu''),
               (''B'', op_node ''Relu''), (''A'', op_node ''Relu'')],
      edges = [(''A'', ''B''), (''A'', ''C''), (''B'', ''D''), (''C'', ''D''), (''R'', ''C'')]\<rparr>"

section \<open>General lemmas\<close>

lemma fold_inv:
  assumes "P st" and "\<And>x s. x \<in> set xs \<Longrightarrow> P s \<Longrightarrow> P (f x s)"
  shows "P (fold f xs st)"
  using assms by (induction xs arbitrary: st) auto

text \<open>An invariant of the growth loop holds of the state it returns.\<close>

lemma grow_inv:
  assumes "I st ns"
    and "\<And>cur d v p ns. I (cur # d, v, p) ns \<Longrightarrow>
           I (grow_in g S cur (grow_out g E cur (d, v, p))) (ns @ [cur])"
  shows "\<exists>v' p' ns'. grow g S E st ns = (ns', v', p') \<and> I ([], v', p') ns'"
  using assms
proof (induction g S E st ns rule: grow.induct)
  case (1 g S E visited prev ns)
  then show ?case by simp
next
  case (2 g S E cur d visited prev ns)
  from 2 show ?case by simp
qed





lemma grown_chain4:
  "grown chain4 [''A''] [''D''] =
     ([''A'', ''B'', ''C'', ''D''], {''A'', ''B'', ''C'', ''D''},
      [''B'' \<mapsto> ''A'', ''C'' \<mapsto> ''B'', ''D'' \<mapsto> ''C''])"
  by (simp add: grown_def chain4_def grow_in_def grow_out_def in_edges_def out_edges_def
      insert_commute)

lemma forward_visited_chain4: "forward_visited chain4 [''A''] = {''A'', ''B'', ''C'', ''D''}"
  by (simp add: forward_visited_def dfs_def chain4_def out_edges_def insert_commute)

lemma grown_side_input:
  "grown side_input [''A''] [''B''] =
     ([''A'', ''B'', ''W''], {''A'', ''B'', ''W''}, [''B'' \<mapsto> ''A'', ''W'' \<mapsto> ''B''])"
  by (simp add: grown_def side_input_def grow_in_def grow_out_def in_edges_def out_edges_def
      insert_commute)

subsection \<open>Depth-first search visits what is reachable\<close>

lemma succs_out: "snd ` set (out_edges g n) = {c. (n, c) \<in> set (edges g)}"
  by (auto simp: out_edges_def intro: rev_image_eqI)

lemma find_None_all: "find P xs = None \<longleftrightarrow> (\<forall>x \<in> set xs. \<not> P x)"
  by (induction xs) auto

lemma dfs_child:
  assumes "find (\<lambda>c. c \<notin> insert n visited) (map snd (out_edges g n)) = Some c"
  shows "(n, c) \<in> set (edges g)" "c \<noteq> n" "c \<notin> visited"
  using find_SomeD[OF assms] by (auto simp: out_edges_def)

lemma dfs_no_child:
  assumes "find (\<lambda>c. c \<notin> insert n visited) (map snd (out_edges g n)) = None"
    and "(n, c) \<in> set (edges g)"
  shows "c \<in> insert n visited"
proof -
  from assms(2) have "c \<in> set (map snd (out_edges g n))"
    using succs_out[of g n] by auto
  with assms(1) show ?thesis unfolding find_None_all by blast
qed

text \<open>
  A set of nodes is closed except for \<open>X\<close> when it holds every successor of each of its
  members outside \<open>X\<close>.
\<close>

definition closed_except :: "graph \<Rightarrow> node_id set \<Rightarrow> node_id set \<Rightarrow> bool" where
  "closed_except g X V \<longleftrightarrow> (\<forall>x c. x \<in> V \<longrightarrow> x \<notin> X \<longrightarrow> (x, c) \<in> set (edges g) \<longrightarrow> c \<in> V)"

lemma dfs_loop_cases [consumes 1, case_names Push Pop]:
  assumes "dfs_loop g (n # stack) visited order = r"
    and "\<And>c. find (\<lambda>c. c \<notin> insert n visited) (map snd (out_edges g n)) = Some c \<Longrightarrow>
           dfs_loop g (c # n # stack) (insert n visited) order = r \<Longrightarrow> P"
    and "find (\<lambda>c. c \<notin> insert n visited) (map snd (out_edges g n)) = None \<Longrightarrow>
           dfs_loop g stack (insert n visited) (order @ [n]) = r \<Longrightarrow> P"
  shows P
  using assms by (cases "find (\<lambda>c. c \<notin> insert n visited) (map snd (out_edges g n))") auto

lemma dfs_loop_mono:
  "dfs_loop g stack visited order = (order', visited') \<Longrightarrow> visited \<union> set stack \<subseteq> visited'"
proof (induction g stack visited order rule: dfs_loop.induct)
  case (1 g visited order)
  then show ?case by simp
next
  case (2 g n stack visited order)
  from "2.prems" show ?case
  proof (cases rule: dfs_loop_cases)
    case (Push c)
    from "2.IH"(2)[OF Push] show ?thesis by auto
  next
    case Pop
    from "2.IH"(1)[OF Pop] show ?thesis by auto
  qed
qed

lemma dfs_loop_sound:
  "dfs_loop g stack visited order = (order', visited') \<Longrightarrow>
   visited' \<subseteq> visited \<union> {v. \<exists>s \<in> set stack. (s, v) \<in> (set (edges g))\<^sup>*}"
proof (induction g stack visited order rule: dfs_loop.induct)
  case (1 g visited order)
  then show ?case by simp
next
  case (2 g n stack visited order)
  from "2.prems" show ?case
  proof (cases rule: dfs_loop_cases)
    case (Push c)
    have "{v. \<exists>s \<in> set (c # n # stack). (s, v) \<in> (set (edges g))\<^sup>*}
        \<subseteq> {v. \<exists>s \<in> set (n # stack). (s, v) \<in> (set (edges g))\<^sup>*}"
      using dfs_child(1)[OF Push(1)] by (auto intro: converse_rtrancl_into_rtrancl)
    moreover have "insert n visited \<subseteq> visited \<union> {v. \<exists>s \<in> set (n # stack). (s, v) \<in> (set (edges g))\<^sup>*}"
      by auto
    ultimately show ?thesis using "2.IH"(2)[OF Push] by blast
  next
    case Pop
    have "{v. \<exists>s \<in> set stack. (s, v) \<in> (set (edges g))\<^sup>*}
        \<subseteq> {v. \<exists>s \<in> set (n # stack). (s, v) \<in> (set (edges g))\<^sup>*}"
      by auto
    moreover have "insert n visited \<subseteq> visited \<union> {v. \<exists>s \<in> set (n # stack). (s, v) \<in> (set (edges g))\<^sup>*}"
      by auto
    ultimately show ?thesis using "2.IH"(1)[OF Pop] by blast
  qed
qed

lemma dfs_loop_closed:
  "dfs_loop g stack visited order = (order', visited') \<Longrightarrow>
   closed_except g (set stack) visited \<Longrightarrow> closed_except g {} visited'"
proof (induction g stack visited order rule: dfs_loop.induct)
  case (1 g visited order)
  then show ?case by simp
next
  case (2 g n stack visited order)
  from "2.prems"(1) show ?case
  proof (cases rule: dfs_loop_cases)
    case (Push c)
    have "closed_except g (set (c # n # stack)) (insert n visited)"
      using "2.prems"(2) unfolding closed_except_def by auto
    with "2.IH"(2)[OF Push] show ?thesis by blast
  next
    case Pop
    have "closed_except g (set stack) (insert n visited)"
      unfolding closed_except_def
    proof (intro allI impI)
      fix x c
      assume x: "x \<in> insert n visited" "x \<notin> set stack" and e: "(x, c) \<in> set (edges g)"
      show "c \<in> insert n visited"
      proof (cases "x = n")
        case True
        with e dfs_no_child[OF Pop(1)] show ?thesis by blast
      next
        case False
        with x e "2.prems"(2) show ?thesis unfolding closed_except_def by auto
      qed
    qed
    with "2.IH"(1)[OF Pop] show ?thesis by blast
  qed
qed

lemma dfs_loop_order:
  "dfs_loop g stack visited order = (order', visited') \<Longrightarrow>
   set order' = set order \<union> set stack \<union> (visited' - visited)"
proof (induction g stack visited order rule: dfs_loop.induct)
  case (1 g visited order)
  then show ?case by simp
next
  case (2 g n stack visited order)
  from "2.prems" show ?case
  proof (cases rule: dfs_loop_cases)
    case (Push c)
    have m: "insert n visited \<union> set (c # n # stack) \<subseteq> visited'"
      using dfs_loop_mono[OF Push(2)] .
    have "set order' = set order \<union> set (c # n # stack) \<union> (visited' - insert n visited)"
      using "2.IH"(2)[OF Push] .
    also have "\<dots> = set order \<union> set (n # stack) \<union> (visited' - visited)"
      using m dfs_child[OF Push(1)] by auto
    finally show ?thesis .
  next
    case Pop
    have "set order' = set (order @ [n]) \<union> set stack \<union> (visited' - insert n visited)"
      using "2.IH"(1)[OF Pop] .
    also have "\<dots> = set order \<union> set (n # stack) \<union> (visited' - visited)"
      by auto
    finally show ?thesis .
  qed
qed

text \<open>The nodes that are reachable from a node along the edges.\<close>

definition reach :: "graph \<Rightarrow> node_id \<Rightarrow> node_id set" where
  "reach g n = {v. (n, v) \<in> (set (edges g))\<^sup>*}"

lemma closed_reach:
  assumes "closed_except g {} V" and "n \<in> V"
  shows "reach g n \<subseteq> V"
proof
  fix v assume "v \<in> reach g n"
  then have "(n, v) \<in> (set (edges g))\<^sup>*" by (simp add: reach_def)
  then show "v \<in> V"
    using assms by (induction rule: rtrancl_induct) (auto simp: closed_except_def)
qed

lemma dfs_visited:
  assumes "closed_except g {} V"
  shows "snd (dfs g n V) = V \<union> reach g n" and "closed_except g {} (snd (dfs g n V))"
proof -
  obtain order' V' where r: "dfs_loop g [n] V [] = (order', V')"
    by (cases "dfs_loop g [n] V []")
  have c0: "closed_except g (set [n]) V"
    using assms unfolding closed_except_def by auto
  have cl: "closed_except g {} V'" using dfs_loop_closed[OF r c0] .
  have "V \<union> set [n] \<subseteq> V'" using dfs_loop_mono[OF r] .
  then have "V \<union> reach g n \<subseteq> V'" using closed_reach[OF cl, of n] by auto
  moreover have "V' \<subseteq> V \<union> reach g n"
    using dfs_loop_sound[OF r] by (auto simp: reach_def)
  ultimately show "snd (dfs g n V) = V \<union> reach g n" using r by (auto simp: dfs_def)
  show "closed_except g {} (snd (dfs g n V))" using cl r by (simp add: dfs_def)
qed

lemma dfs_order_fresh: "set (fst (dfs g n {})) = reach g n"
proof -
  obtain order' V' where r: "dfs_loop g [n] {} [] = (order', V')"
    by (cases "dfs_loop g [n] {} []")
  have "closed_except g {} {}" by (simp add: closed_except_def)
  from dfs_visited(1)[OF this, of n] r have "V' = reach g n" by (simp add: dfs_def)
  moreover have "n \<in> reach g n" by (simp add: reach_def)
  ultimately show ?thesis using dfs_loop_order[OF r] r by (auto simp: dfs_def)
qed

lemma fold_dfs_visited:
  assumes "closed_except g {} V"
  shows "fold (\<lambda>s fv. snd (dfs g s fv)) S V = V \<union> (\<Union>s \<in> set S. reach g s) \<and>
         closed_except g {} (fold (\<lambda>s fv. snd (dfs g s fv)) S V)"
  using assms
proof (induction S arbitrary: V)
  case Nil
  then show ?case by simp
next
  case (Cons s S)
  from Cons.IH[OF dfs_visited(2)[OF Cons.prems, of s]] dfs_visited(1)[OF Cons.prems, of s]
  show ?case by auto
qed

lemma forward_visited_reach: "forward_visited g S = (\<Union>s \<in> set S. reach g s)"
  using fold_dfs_visited[of g "{}" S] by (simp add: forward_visited_def closed_except_def)

lemma find_first:
  assumes "\<exists>x \<in> set xs. P x"
  shows "\<exists>x. find P xs = Some x \<and> x \<in> set xs \<and> P x"
  using assms by (induction xs) auto

subsection \<open>Back-pointers point to earlier nodes\<close>

text \<open>The position of the first occurrence of an element in a list.\<close>

definition first_index :: "'a list \<Rightarrow> 'a \<Rightarrow> nat" where
  "first_index xs x = length (takeWhile (\<lambda>y. y \<noteq> x) xs)"

lemma first_index_append: "x \<in> set xs \<Longrightarrow> first_index (xs @ ys) x = first_index xs x"
  unfolding first_index_def by (induction xs) auto

lemma first_index_less: "x \<in> set xs \<Longrightarrow> first_index xs x < length xs"
  unfolding first_index_def by (induction xs) auto

lemma first_index_new: "x \<notin> set xs \<Longrightarrow> first_index (xs @ [x]) x = length xs"
  unfolding first_index_def by (induction xs) auto

text \<open>
  The order in which the growth loop meets the nodes is the list of the nodes already
  taken from the queue followed by the queue. Along it every back-pointer points to an
  earlier node.
\<close>

definition ranked_list :: "node_id list \<Rightarrow> (node_id \<rightharpoonup> node_id) \<Rightarrow> bool" where
  "ranked_list L prev \<longleftrightarrow>
     (\<forall>x c. prev x = Some c \<longrightarrow>
        x \<in> set L \<and> c \<in> set L \<and> first_index L c < first_index L x)"

definition ranked :: "node_id list \<Rightarrow> grow_state \<Rightarrow> bool" where
  "ranked pre st \<longleftrightarrow>
     (case st of (d, visited, prev) \<Rightarrow> visited = set (pre @ d) \<and> ranked_list (pre @ d) prev)"

lemma ranked_list_extend:
  assumes "ranked_list L prev" and "cur \<in> set L" and "x \<notin> set L"
  shows "ranked_list (L @ [x]) (prev(x \<mapsto> cur))"
  unfolding ranked_list_def
proof (intro allI impI)
  fix y c assume a: "(prev(x \<mapsto> cur)) y = Some c"
  show "y \<in> set (L @ [x]) \<and> c \<in> set (L @ [x]) \<and>
    first_index (L @ [x]) c < first_index (L @ [x]) y"
  proof (cases "y = x")
    case True
    with a have c: "c = cur" by simp
    have "first_index (L @ [x]) cur = first_index L cur"
      using assms(2) by (rule first_index_append)
    moreover have "first_index L cur < length L"
      using assms(2) by (rule first_index_less)
    moreover have "first_index (L @ [x]) x = length L"
      using assms(3) by (rule first_index_new)
    ultimately show ?thesis using True c assms(2) by simp
  next
    case False
    with a have "prev y = Some c" by simp
    with assms(1) have y: "y \<in> set L" and c: "c \<in> set L"
      and lt: "first_index L c < first_index L y"
      by (auto simp: ranked_list_def)
    show ?thesis
      using y c lt first_index_append[OF y, of "[x]"] first_index_append[OF c, of "[x]"]
      by simp
  qed
qed

lemma grow_add_ranked:
  assumes "ranked pre st" and "cur \<in> set pre"
  shows "ranked pre (grow_add cur x st)"
proof (cases st)
  case (fields d visited prev)
  show ?thesis
  proof (cases "x \<in> visited")
    case True
    then show ?thesis using assms fields by simp
  next
    case False
    from assms(1) fields have v: "visited = set (pre @ d)" and r: "ranked_list (pre @ d) prev"
      by (auto simp: ranked_def)
    have "ranked_list ((pre @ d) @ [x]) (prev(x \<mapsto> cur))"
      using r assms(2) False v by (intro ranked_list_extend) auto
    then show ?thesis using False fields v by (simp add: ranked_def)
  qed
qed

lemma grow_out_ranked:
  assumes "ranked pre st" and "cur \<in> set pre"
  shows "ranked pre (grow_out g E cur st)"
proof (cases "cur \<in> set E")
  case True
  then show ?thesis using assms by (simp add: grow_out_def)
next
  case False
  have "ranked pre (fold (grow_add cur) (map snd (out_edges g cur)) st)"
    using assms by (intro fold_inv[where P = "ranked pre"] grow_add_ranked)
  then show ?thesis using False by (simp add: grow_out_def)
qed

lemma grow_in_ranked:
  assumes "ranked pre st" and "cur \<in> set pre"
  shows "ranked pre (grow_in g S cur st)"
  unfolding grow_in_def
proof (rule fold_inv[where P = "ranked pre"])
  show "ranked pre st" by fact
next
  fix x and s :: grow_state
  assume "ranked pre s"
  then show "ranked pre (if cur \<notin> set S then grow_add cur x s else s)"
    using assms(2) by (simp add: grow_add_ranked)
qed

lemma ranked_pop: "ranked ns (cur # d, v, p) \<Longrightarrow> ranked (ns @ [cur]) (d, v, p)"
  by (simp add: ranked_def)

lemma grown_ranked:
  assumes "grown g S E = (ns, visited, prev)"
  shows "ranked ns ([], visited, prev)"
proof -
  have "\<exists>v' p' ns'. grow g S E (S, set S, Map.empty) [] = (ns', v', p') \<and>
          ranked ns' ([], v', p')"
  proof (rule grow_inv[where I = "\<lambda>st ns. ranked ns st"])
    show "ranked [] (S, set S, Map.empty)" by (simp add: ranked_def ranked_list_def)
  next
    fix cur d v p ns
    assume "ranked ns (cur # d, v, p)"
    then have "ranked (ns @ [cur]) (d, v, p)" by (rule ranked_pop)
    then show "ranked (ns @ [cur]) (grow_in g S cur (grow_out g E cur (d, v, p)))"
      by (intro grow_in_ranked grow_out_ranked) simp_all
  qed
  then show ?thesis using assms by (simp add: grown_def)
qed

lemma prev_path_terminates:
  assumes r: "\<And>x c. prev x = Some c \<Longrightarrow> f c < (f x :: nat)"
  shows "\<exists>r. prev_path prev cur path = Some r"
proof (induction "case cur of None \<Rightarrow> 0 | Some x \<Rightarrow> Suc (f x)" arbitrary: cur path rule: less_induct)
  case less
  show ?case
  proof (cases cur)
    case None
    then show ?thesis by (subst prev_path.simps) simp
  next
    case (Some c)
    show ?thesis
    proof (cases "c = []")
      case True
      with Some show ?thesis by (subst prev_path.simps) simp
    next
      case False
      have "(case prev c of None \<Rightarrow> 0 | Some x \<Rightarrow> Suc (f x)) < Suc (f c)"
        using r[of c] by (auto split: option.split)
      from less[of "prev c" "path @ [c]"] this Some
      obtain r where "prev_path prev (prev c) (path @ [c]) = Some r" by auto
      with Some False show ?thesis by (subst prev_path.simps) simp
    qed
  qed
qed

lemma grown_prev_path:
  assumes "grown g S E = (ns, visited, prev)"
  shows "\<exists>r. prev_path prev cur path = Some r"
proof (rule prev_path_terminates[where f = "first_index ns"])
  fix x c assume "prev x = Some c"
  with grown_ranked[OF assms] show "first_index ns c < first_index ns x"
    by (simp add: ranked_def ranked_list_def)
qed

subsection \<open>The grown region\<close>

text \<open>
  The region between start and end nodes: the least set that holds the start nodes, the
  successors of its members that are not end nodes, and the predecessors of its members
  that are not start nodes.
\<close>

inductive_set region :: "graph \<Rightarrow> node_id list \<Rightarrow> node_id list \<Rightarrow> node_id set"
  for g :: graph and start_nodes end_nodes :: "node_id list"
where
  start: "s \<in> set start_nodes \<Longrightarrow> s \<in> region g start_nodes end_nodes"
| out: "n \<in> region g start_nodes end_nodes \<Longrightarrow> n \<notin> set end_nodes \<Longrightarrow>
        (n, m) \<in> set (edges g) \<Longrightarrow> m \<in> region g start_nodes end_nodes"
| inp: "n \<in> region g start_nodes end_nodes \<Longrightarrow> n \<notin> set start_nodes \<Longrightarrow>
        (m, n) \<in> set (edges g) \<Longrightarrow> m \<in> region g start_nodes end_nodes"











lemma sgbn_chain4:
  "sub_graph_between_nodes chain4 [''A''] [''D''] = Some (Inr [''A'', ''B'', ''C'', ''D''])"
  by (simp add: sub_graph_between_nodes_def grown_chain4 forward_visited_chain4)
     (simp add: node_op_def chain4_def op_node_def)



subsection \<open>Post-order on acyclic graphs\<close>

text \<open>The stack is a path: each entry is a successor of the entry below it.\<close>

fun stack_path :: "graph \<Rightarrow> node_id list \<Rightarrow> bool" where
  "stack_path g (x # y # rest) \<longleftrightarrow> (y, x) \<in> set (edges g) \<and> stack_path g (y # rest)"
| "stack_path g _ \<longleftrightarrow> True"

lemma stack_path_below:
  "stack_path g (n # stack) \<Longrightarrow> c \<in> set stack \<Longrightarrow> (c, n) \<in> (set (edges g))\<^sup>+"
proof (induction stack arbitrary: n)
  case Nil
  then show ?case by simp
next
  case (Cons y rest)
  from Cons.prems(1) have e: "(y, n) \<in> set (edges g)" and p: "stack_path g (y # rest)"
    by simp_all
  show ?case
  proof (cases "c = y")
    case True
    with e show ?thesis by auto
  next
    case False
    with Cons.prems(2) have "c \<in> set rest" by simp
    from Cons.IH[OF p this] e show ?thesis by (rule trancl_into_trancl)
  qed
qed

text \<open>
  In a post-order every successor of an entry stands before the entry.
\<close>

definition post_ok :: "graph \<Rightarrow> node_id list \<Rightarrow> bool" where
  "post_ok g po \<longleftrightarrow>
     (\<forall>i < length po. \<forall>y. (po ! i, y) \<in> set (edges g) \<longrightarrow> y \<in> set (take i po))"

lemma post_ok_snoc:
  assumes "post_ok g po" and "\<forall>y. (n, y) \<in> set (edges g) \<longrightarrow> y \<in> set po"
  shows "post_ok g (po @ [n])"
  unfolding post_ok_def
proof (intro allI impI)
  fix i y assume i: "i < length (po @ [n])" and e: "((po @ [n]) ! i, y) \<in> set (edges g)"
  show "y \<in> set (take i (po @ [n]))"
  proof (cases "i < length po")
    case True
    with e have "(po ! i, y) \<in> set (edges g)" by (simp add: nth_append)
    with assms(1) True have "y \<in> set (take i po)" by (simp add: post_ok_def)
    with True show ?thesis by simp
  next
    case False
    with i have "i = length po" by simp
    with e assms(2) show ?thesis by simp
  qed
qed

text \<open>
  The invariant of the depth-first loop on an acyclic graph; \<open>pre\<close> is the order found
  by the earlier calls.
\<close>

definition dfs_inv ::
  "graph \<Rightarrow> node_id list \<Rightarrow> node_id list \<Rightarrow> node_id set \<Rightarrow> node_id list \<Rightarrow> bool" where
  "dfs_inv g pre stack visited order \<longleftrightarrow>
     stack_path g stack \<and> distinct stack \<and> set (tl stack) \<subseteq> visited \<and>
     visited \<subseteq> set (pre @ order) \<union> set stack \<and> set (pre @ order) \<subseteq> visited \<and>
     set stack \<inter> set (pre @ order) = {} \<and>
     post_ok g (pre @ order) \<and> distinct (pre @ order)"

lemma dfs_inv_push:
  assumes inv: "dfs_inv g pre (n # stack) visited order"
    and f: "find (\<lambda>c. c \<notin> insert n visited) (map snd (out_edges g n)) = Some c"
  shows "dfs_inv g pre (c # n # stack) (insert n visited) order"
proof -
  note ch = dfs_child[OF f]
  from inv have "set stack \<subseteq> visited" by (simp add: dfs_inv_def)
  with ch have c1: "c \<notin> set stack" by auto
  from inv ch have c2: "c \<notin> set (pre @ order)" by (auto simp: dfs_inv_def)
  show ?thesis
    using inv ch c1 c2 unfolding dfs_inv_def by auto
qed

lemma dfs_inv_pop:
  assumes ac: "acyclic (set (edges g))"
    and inv: "dfs_inv g pre (n # stack) visited order"
    and f: "find (\<lambda>c. c \<notin> insert n visited) (map snd (out_edges g n)) = None"
  shows "dfs_inv g pre stack (insert n visited) (order @ [n])"
proof -
  from inv have path: "stack_path g (n # stack)" and dist: "distinct (n # stack)"
    and vis: "visited \<subseteq> set (pre @ order) \<union> set (n # stack)"
    and fin: "set (pre @ order) \<subseteq> visited"
    and disj: "set (n # stack) \<inter> set (pre @ order) = {}"
    and po: "post_ok g (pre @ order)" and dpo: "distinct (pre @ order)"
    and tl: "set stack \<subseteq> visited"
    by (simp_all add: dfs_inv_def)
  have succ: "\<forall>y. (n, y) \<in> set (edges g) \<longrightarrow> y \<in> set (pre @ order)"
  proof (intro allI impI)
    fix y assume e: "(n, y) \<in> set (edges g)"
    from dfs_no_child[OF f e] vis have "y \<in> set (pre @ order) \<or> y \<in> set (n # stack)"
      by auto
    moreover have "y \<notin> set (n # stack)"
    proof
      assume "y \<in> set (n # stack)"
      then have "(y, n) \<in> (set (edges g))\<^sup>*"
        using stack_path_below[OF path, of y] by (cases "y = n") auto
      with e have "(n, n) \<in> (set (edges g))\<^sup>+" by auto
      with ac show False by (simp add: acyclic_def)
    qed
    ultimately show "y \<in> set (pre @ order)" by blast
  qed
  have p1: "stack_path g stack" using path by (cases stack) simp_all
  have p7: "post_ok g (pre @ order @ [n])"
    using post_ok_snoc[OF po succ] by simp
  have p8: "distinct (pre @ order @ [n])" using dpo disj by auto
  have p3: "set (tl stack) \<subseteq> insert n visited"
    using tl by (cases stack) auto
  show ?thesis
    unfolding dfs_inv_def
    using p1 dist p3 vis fin disj p7 p8 by auto
qed

lemma dfs_loop_inv:
  "acyclic (set (edges g)) \<Longrightarrow> dfs_inv g pre stack visited order \<Longrightarrow>
   dfs_loop g stack visited order = (order', visited') \<Longrightarrow>
   dfs_inv g pre [] visited' order'"
proof (induction g stack visited order rule: dfs_loop.induct)
  case (1 g visited order)
  then show ?case by simp
next
  case (2 g n stack visited order)
  from "2.prems"(3) show ?case
  proof (cases rule: dfs_loop_cases)
    case (Push c)
    from "2.IH"(2)[OF Push(1) "2.prems"(1) dfs_inv_push[OF "2.prems"(2) Push(1)] Push(2)]
    show ?thesis .
  next
    case Pop
    from "2.IH"(1)[OF Pop(1) "2.prems"(1) dfs_inv_pop[OF "2.prems"(1) "2.prems"(2) Pop(1)] Pop(2)]
    show ?thesis .
  qed
qed

text \<open>\<open>u\<close> stands before \<open>v\<close> in a list.\<close>

definition precedes :: "'a \<Rightarrow> 'a \<Rightarrow> 'a list \<Rightarrow> bool" where
  "precedes u v xs \<longleftrightarrow> (\<exists>i j. i < j \<and> j < length xs \<and> xs ! i = u \<and> xs ! j = v)"

text \<open>
  The invariant of the loop over the nodes without inputs: the order found so far is a
  post-order without repetitions, and holds exactly the visited nodes.
\<close>

definition pts_inv :: "graph \<Rightarrow> node_id list \<times> node_id set \<Rightarrow> bool" where
  "pts_inv g st \<longleftrightarrow>
     (case st of (order, visited) \<Rightarrow>
        post_ok g order \<and> distinct order \<and> visited = set order \<and>
        set order \<subseteq> set (node_names g) \<union> endpoints g)"

lemma reach_endpoints: "(n, v) \<in> (set (edges g))\<^sup>* \<Longrightarrow> v = n \<or> v \<in> endpoints g"
  by (induction rule: rtrancl_induct) (auto simp: endpoints_def intro: rev_image_eqI)

lemma pts_visit_inv:
  assumes ac: "acyclic (set (edges g))" and inv: "pts_inv g st"
    and n: "n \<in> set (node_names g)"
  shows "pts_inv g (pts_visit g n st) \<and> n \<in> snd (pts_visit g n st) \<and>
         snd st \<subseteq> snd (pts_visit g n st)"
proof (cases st)
  case (Pair order visited)
  with inv have po: "post_ok g order" and d: "distinct order" and v: "visited = set order"
    and sub: "set order \<subseteq> set (node_names g) \<union> endpoints g"
    by (simp_all add: pts_inv_def)
  show ?thesis
  proof (cases "n \<in> visited")
    case True
    with Pair inv show ?thesis by (simp add: pts_visit_def)
  next
    case False
    obtain found visited' where r: "dfs_loop g [n] visited [] = (found, visited')"
      by (cases "dfs_loop g [n] visited []")
    have "dfs_inv g order [n] visited []"
      using po d v False by (auto simp: dfs_inv_def)
    from dfs_loop_inv[OF ac this r] have po': "post_ok g (order @ found)"
      and d': "distinct (order @ found)" and v': "visited' = set (order @ found)"
      by (auto simp: dfs_inv_def)
    have m: "visited \<union> set [n] \<subseteq> visited'" using dfs_loop_mono[OF r] .
    have "visited' \<subseteq> visited \<union> {v. \<exists>s \<in> set [n]. (s, v) \<in> (set (edges g))\<^sup>*}"
      using dfs_loop_sound[OF r] .
    then have "visited' \<subseteq> set (node_names g) \<union> endpoints g"
      using v sub n reach_endpoints[of n _ g] by auto
    with po' d' v' m False Pair r show ?thesis
      by (simp add: pts_visit_def pts_inv_def dfs_def)
  qed
qed

lemma fold_pts_visit:
  assumes ac: "acyclic (set (edges g))"
  shows "pts_inv g st \<Longrightarrow> set ns \<subseteq> set (node_names g) \<Longrightarrow>
         pts_inv g (fold (pts_visit g) ns st) \<and>
         set ns \<union> snd st \<subseteq> snd (fold (pts_visit g) ns st)"
proof (induction ns arbitrary: st)
  case Nil
  then show ?case by simp
next
  case (Cons n ns)
  from Cons.prems have n: "n \<in> set (node_names g)" and ns: "set ns \<subseteq> set (node_names g)"
    by simp_all
  note step = pts_visit_inv[OF ac Cons.prems(1) n]
  from Cons.IH[OF step[THEN conjunct1] ns] step show ?case by auto
qed

lemma post_ok_precedes:
  assumes po: "post_ok g po" and d: "distinct po" and u: "u \<in> set po"
    and e: "(u, v) \<in> set (edges g)"
  shows "precedes u v (rev po)"
proof -
  from u obtain i where i: "i < length po" "po ! i = u" by (auto simp: in_set_conv_nth)
  with po e have "v \<in> set (take i po)" by (auto simp: post_ok_def)
  then obtain j where j: "j < length (take i po)" "take i po ! j = v"
    by (auto simp: in_set_conv_nth)
  with i have ji: "j < i" and vj: "po ! j = v" by simp_all
  let ?n = "length po"
  have "?n - 1 - i < ?n - 1 - j" using ji i by arith
  moreover have "?n - 1 - j < length (rev po)" using i ji by simp
  moreover have "rev po ! (?n - 1 - i) = u" using i by (simp add: rev_nth)
  moreover have "rev po ! (?n - 1 - j) = v" using i ji vj by (simp add: rev_nth)
  ultimately show ?thesis unfolding precedes_def by blast
qed

lemma pts_complete:
  assumes ac: "acyclic (set (edges g))" and wf: "wf_graph g"
    and inv: "pts_inv g (order, visited)"
    and roots: "set (nodes_without_inputs g) \<subseteq> visited"
  shows "set (node_names g) \<subseteq> set order"
proof -
  have w: "wf (set (edges g))" using ac by (intro finite_acyclic_wf) simp
  have "x \<in> set (node_names g) \<longrightarrow> x \<in> set order" for x
    using w
  proof (induction x rule: wf_induct_rule)
    case (less x)
    show ?case
    proof
      assume x: "x \<in> set (node_names g)"
      show "x \<in> set order"
      proof (cases "in_edges g x = []")
        case True
        with x have "x \<in> set (nodes_without_inputs g)" by (simp add: nodes_without_inputs_def)
        with roots inv show ?thesis by (auto simp: pts_inv_def)
      next
        case False
        then obtain e where "e \<in> set (in_edges g x)"
          by (cases "in_edges g x") auto
        then have "(fst e, x) \<in> set (edges g)" by (auto simp: in_edges_def)
        then obtain u where e: "(u, x) \<in> set (edges g)" ..
        then have "u \<in> endpoints g" by (auto simp: endpoints_def intro: rev_image_eqI)
        with wf have "u \<in> set (node_names g)" by (auto simp: wf_graph_def)
        with less[OF e] have "u \<in> set order" by simp
        then obtain i where i: "i < length order" "order ! i = u"
          by (auto simp: in_set_conv_nth)
        with inv e have "x \<in> set (take i order)" by (auto simp: pts_inv_def post_ok_def)
        then show ?thesis by (auto dest: in_set_takeD)
      qed
    qed
  qed
  then show ?thesis by blast
qed

lemma pts_topological:
  assumes wf: "wf_graph g" and ac: "acyclic (set (edges g))"
  shows "distinct (pseudo_topological_sort g False)"
    and "set (pseudo_topological_sort g False) = set (node_names g)"
    and "\<forall>(u, v) \<in> set (edges g). precedes u v (pseudo_topological_sort g False)"
proof -
  obtain order visited where f: "fold (pts_visit g) (nodes_without_inputs g) ([], {}) = (order, visited)"
    by (cases "fold (pts_visit g) (nodes_without_inputs g) ([], {})")
  have r: "pseudo_topological_sort g False = rev order"
    using f by (simp add: pseudo_topological_sort_def)
  have i0: "pts_inv g ([], {})" by (simp add: pts_inv_def post_ok_def)
  have sub: "set (nodes_without_inputs g) \<subseteq> set (node_names g)"
    by (auto simp: nodes_without_inputs_def)
  from fold_pts_visit[OF ac i0 sub] f have inv: "pts_inv g (order, visited)"
    and roots: "set (nodes_without_inputs g) \<subseteq> visited" by auto
  from inv have po: "post_ok g order" and d: "distinct order"
    and s: "set order \<subseteq> set (node_names g) \<union> endpoints g"
    by (simp_all add: pts_inv_def)
  have all: "set (node_names g) \<subseteq> set order" by (rule pts_complete[OF ac wf inv roots])
  show "distinct (pseudo_topological_sort g False)" using d r by simp
  show "set (pseudo_topological_sort g False) = set (node_names g)"
    using all s wf r by (auto simp: wf_graph_def)
  show "\<forall>(u, v) \<in> set (edges g). precedes u v (pseudo_topological_sort g False)"
  proof (intro ballI, clarify)
    fix u v assume e: "(u, v) \<in> set (edges g)"
    then have "u \<in> endpoints g" by (auto simp: endpoints_def intro: rev_image_eqI)
    with wf all have "u \<in> set order" by (auto simp: wf_graph_def)
    from post_ok_precedes[OF po d this e] r
    show "precedes u v (pseudo_topological_sort g False)" by simp
  qed
qed

lemma pts_diamond: "pseudo_topological_sort diamond False = [''A'', ''B'', ''R'', ''C'', ''D'']"
  by (simp add: pseudo_topological_sort_def nodes_without_inputs_def node_names_def in_edges_def
      pts_visit_def dfs_def out_edges_def diamond_def)

subsection \<open>Neighbourhood\<close>

text \<open>The nodes within \<open>k\<close> steps of the neighbour function from the start node.\<close>

fun ball :: "(node_id \<Rightarrow> node_id list) \<Rightarrow> node_id \<Rightarrow> nat \<Rightarrow> node_id set" where
  "ball f s 0 = {s}"
| "ball f s (Suc k) = ball f s k \<union> (\<Union>u \<in> ball f s k. set (f u))"

lemma finite_ball: "finite (ball f s k)"
  by (induction k) auto

lemma ball_mono: "i \<le> j \<Longrightarrow> ball f s i \<subseteq> ball f s j"
proof (induction j)
  case 0
  then show ?case by simp
next
  case (Suc j)
  then show ?case by (cases "i = Suc j") auto
qed

lemma ball_step: "u \<in> ball f s k \<Longrightarrow> z \<in> set (f u) \<Longrightarrow> z \<in> ball f s (Suc k)"
  by auto

lemma map_of_dict_set: "map_of (dict_set k v d) = (map_of d)(k \<mapsto> v)"
  by (induction d) auto

lemma keys_dict_set:
  "map fst (dict_set k v d) = (if k \<in> fst ` set d then map fst d else map fst d @ [k])"
  by (induction d) auto

lemma map_of_snoc_new:
  "map_of d z = None \<Longrightarrow> map_of (d @ [(z, v)]) = (map_of d)(z \<mapsto> v)"
  by (rule ext) (auto simp: map_add_def split: option.splits)

text \<open>What one pass of the inner loop does to the dictionary and the queue.\<close>

definition nn_updates :: "int \<Rightarrow> (node_id \<times> int) list \<Rightarrow> node_id \<Rightarrow> bool" where
  "nn_updates cd dist z \<longleftrightarrow> (case map_of dist z of None \<Rightarrow> True | Some w \<Rightarrow> w > cd + 1)"

lemma nn_visit_eq:
  assumes "cd < depth" and "nn_visit depth cd z (dist, deq) = (dist', deq')"
  shows "map_of dist' = (if nn_updates cd dist z then (map_of dist)(z \<mapsto> cd + 1) else map_of dist)"
    and "map fst dist' = (if z \<in> fst ` set dist then map fst dist else map fst dist @ [z])"
    and "deq' = (if nn_updates cd dist z then deq @ [z] else deq)"
    and "fst ` set dist' = insert z (fst ` set dist)"
proof -
  show "map_of dist' = (if nn_updates cd dist z then (map_of dist)(z \<mapsto> cd + 1) else map_of dist)"
    using assms
    by (auto simp: setdefault_def nn_updates_def map_of_dict_set map_of_snoc_new
        simp del: map_of_append split: option.splits if_splits)
  show "map fst dist' = (if z \<in> fst ` set dist then map fst dist else map fst dist @ [z])"
  proof (cases "map_of dist z")
    case None
    then have z: "z \<notin> fst ` set dist" by (simp add: map_of_eq_None_iff)
    from None assms have "dist' = dict_set z (cd + 1) (dist @ [(z, depth + 1)])"
      by (simp add: setdefault_def)
    then show ?thesis using z by (simp add: keys_dict_set)
  next
    case (Some w)
    then have z: "z \<in> fst ` set dist" by (auto dest: map_of_SomeD intro: rev_image_eqI)
    from Some assms have "dist' = (if w > cd + 1 then dict_set z (cd + 1) dist else dist)"
      by (auto simp: setdefault_def split: if_splits)
    then show ?thesis using z by (simp add: keys_dict_set)
  qed
  then have "set (map fst dist') = insert z (set (map fst dist))"
    by (auto split: if_splits)
  then show "fst ` set dist' = insert z (fst ` set dist)" by simp
  show "deq' = (if nn_updates cd dist z then deq @ [z] else deq)"
    using assms
    by (auto simp: setdefault_def nn_updates_def split: option.splits if_splits)
qed

text \<open>
  A node is closed when each of its neighbours has a distance, at most one more than its
  own.
\<close>

definition nn_closed :: "(node_id \<Rightarrow> node_id list) \<Rightarrow> (node_id \<times> int) list \<Rightarrow> node_id \<Rightarrow> int \<Rightarrow> bool" where
  "nn_closed f dist y k \<longleftrightarrow> (\<forall>z \<in> set (f y). \<exists>k'. map_of dist z = Some k' \<and> k' \<le> k + 1)"

text \<open>
  The keys of the dictionary are unique, the queue holds keys only, the start node keeps
  the distance 0, and a node with the distance \<open>k\<close> is within \<open>k\<close> steps of the start node.
\<close>

definition nn_sound :: "(node_id \<Rightarrow> node_id list) \<Rightarrow> node_id \<Rightarrow> int \<Rightarrow> nn_state \<Rightarrow> bool" where
  "nn_sound f start depth st \<longleftrightarrow>
     (case st of (dist, deq) \<Rightarrow>
        distinct (map fst dist) \<and> set deq \<subseteq> fst ` set dist \<and> map_of dist start = Some 0 \<and>
        (\<forall>x k. map_of dist x = Some k \<longrightarrow>
           0 \<le> k \<and> k \<le> max depth 0 \<and> x \<in> ball f start (nat k)))"

text \<open>
  Every node with a distance below the depth is closed, or still in the queue, or one of
  the nodes \<open>P\<close> being expanded.
\<close>

definition nn_pending ::
  "(node_id \<Rightarrow> node_id list) \<Rightarrow> int \<Rightarrow> node_id set \<Rightarrow> nn_state \<Rightarrow> bool" where
  "nn_pending f depth P st \<longleftrightarrow>
     (case st of (dist, deq) \<Rightarrow>
        \<forall>y k. map_of dist y = Some k \<longrightarrow> k < depth \<longrightarrow>
          y \<in> P \<or> y \<in> set deq \<or> nn_closed f dist y k)"

text \<open>
  The measure of the loop: the distances of the nodes within the depth (a node without a
  distance counts as depth + 1), summed up, plus the length of the queue.
\<close>

definition nn_val :: "int \<Rightarrow> (node_id \<times> int) list \<Rightarrow> node_id \<Rightarrow> nat" where
  "nn_val depth dist x = (case map_of dist x of None \<Rightarrow> nat depth + 1 | Some k \<Rightarrow> nat k)"

definition nn_measure :: "(node_id \<Rightarrow> node_id list) \<Rightarrow> node_id \<Rightarrow> int \<Rightarrow> nn_state \<Rightarrow> nat" where
  "nn_measure f start depth st =
     (case st of (dist, deq) \<Rightarrow>
        (\<Sum>x \<in> ball f start (nat depth). nn_val depth dist x) + length deq)"

lemma map_of_Some_key: "map_of d z = Some w \<Longrightarrow> z \<in> fst ` set d"
  by (auto dest: map_of_SomeD intro: rev_image_eqI)

lemma nn_visit_sound:
  assumes cd: "0 \<le> cd" "cd < depth" and cur: "cur \<in> ball f start (nat cd)"
    and z: "z \<in> set (f cur)"
    and inv: "nn_sound f start depth (dist, deq)"
    and v: "nn_visit depth cd z (dist, deq) = (dist', deq')"
  shows "nn_sound f start depth (dist', deq')"
proof -
  note eq = nn_visit_eq[OF cd(2) v]
  from inv have A: "distinct (map fst dist)" and B: "set deq \<subseteq> fst ` set dist"
    and C: "map_of dist start = Some 0"
    and D: "\<And>x k. map_of dist x = Some k \<Longrightarrow>
           0 \<le> k \<and> k \<le> max depth 0 \<and> x \<in> ball f start (nat k)"
    by (auto simp: nn_sound_def)
  show ?thesis
  proof (cases "nn_updates cd dist z")
    case False
    then have "z \<in> fst ` set dist"
      by (auto simp: nn_updates_def split: option.splits intro: map_of_Some_key)
    with False eq inv show ?thesis by (auto simp: nn_sound_def)
  next
    case True
    have zs: "z \<noteq> start" using True C cd by (auto simp: nn_updates_def)
    have m': "map_of dist' = (map_of dist)(z \<mapsto> cd + 1)" using eq(1) True by simp
    have k': "fst ` set dist' = insert z (fst ` set dist)" by (rule eq(4))
    have A': "distinct (map fst dist')" using eq(2) A by (auto split: if_splits)
    have B': "set deq' \<subseteq> fst ` set dist'" using eq(3) True B k' by auto
    have C': "map_of dist' start = Some 0" using m' zs C by simp
    have zb: "z \<in> ball f start (nat (cd + 1))"
    proof -
      have "nat (cd + 1) = Suc (nat cd)" using cd by simp
      with ball_step[OF cur z] show ?thesis by simp
    qed
    have D': "\<forall>x k. map_of dist' x = Some k \<longrightarrow>
           0 \<le> k \<and> k \<le> max depth 0 \<and> x \<in> ball f start (nat k)"
    proof (intro allI impI)
      fix x k assume a: "map_of dist' x = Some k"
      show "0 \<le> k \<and> k \<le> max depth 0 \<and> x \<in> ball f start (nat k)"
      proof (cases "x = z")
        case True
        with a m' have "k = cd + 1" by simp
        with True cd zb show ?thesis by simp
      next
        case False
        with a m' have "map_of dist x = Some k" by simp
        from D[OF this] show ?thesis .
      qed
    qed
    from A' B' C' D' show ?thesis by (simp add: nn_sound_def)
  qed
qed

lemma nn_visit_pending:
  assumes cd: "cd < depth"
    and inv: "nn_pending f depth P (dist, deq)"
    and v: "nn_visit depth cd z (dist, deq) = (dist', deq')"
  shows "nn_pending f depth P (dist', deq')"
proof -
  note eq = nn_visit_eq[OF cd v]
  show ?thesis
  proof (cases "nn_updates cd dist z")
    case False
    with eq inv show ?thesis by (simp add: nn_pending_def nn_closed_def)
  next
    case True
    have m': "map_of dist' = (map_of dist)(z \<mapsto> cd + 1)" using eq(1) True by simp
    have q': "deq' = deq @ [z]" using eq(3) True by simp
    show ?thesis
      unfolding nn_pending_def prod.case
    proof (intro allI impI)
      fix y k assume a: "map_of dist' y = Some k" and k: "k < depth"
      show "y \<in> P \<or> y \<in> set deq' \<or> nn_closed f dist' y k"
      proof (cases "y = z")
        case True
        with q' show ?thesis by simp
      next
        case False
        with a m' have "map_of dist y = Some k" by simp
        with inv k have "y \<in> P \<or> y \<in> set deq \<or> nn_closed f dist y k"
          by (auto simp: nn_pending_def)
        moreover have "nn_closed f dist y k \<Longrightarrow> nn_closed f dist' y k"
          unfolding nn_closed_def
        proof
          fix x assume c: "\<forall>z \<in> set (f y). \<exists>k'. map_of dist z = Some k' \<and> k' \<le> k + 1"
            and x: "x \<in> set (f y)"
          from c x obtain k' where k': "map_of dist x = Some k'" "k' \<le> k + 1" by blast
          show "\<exists>k'. map_of dist' x = Some k' \<and> k' \<le> k + 1"
          proof (cases "x = z")
            case True
            with k' \<open>nn_updates cd dist z\<close> have "cd + 1 < k'" by (simp add: nn_updates_def)
            with k'(2) True m' show ?thesis by simp
          next
            case False
            with k' m' show ?thesis by simp
          qed
        qed
        ultimately show ?thesis using q' by auto
      qed
    qed
  qed
qed

lemma nn_visit_done:
  assumes cd: "cd < depth"
    and v: "nn_visit depth cd z (dist, deq) = (dist', deq')"
  shows "\<exists>k'. map_of dist' z = Some k' \<and> k' \<le> cd + 1"
    and "\<And>x k. map_of dist x = Some k \<Longrightarrow> \<exists>k'. map_of dist' x = Some k' \<and> k' \<le> k"
    and "\<And>x k. map_of dist x = Some k \<Longrightarrow> k \<le> cd + 1 \<Longrightarrow> map_of dist' x = Some k"
proof -
  note eq = nn_visit_eq[OF cd v]
  show "\<exists>k'. map_of dist' z = Some k' \<and> k' \<le> cd + 1"
    using eq(1) by (auto simp: nn_updates_def split: option.splits)
  show "\<exists>k'. map_of dist' x = Some k' \<and> k' \<le> k" if "map_of dist x = Some k" for x k
    using eq(1) that by (auto simp: nn_updates_def split: option.splits)
  show "map_of dist' x = Some k" if "map_of dist x = Some k" "k \<le> cd + 1" for x k
    using eq(1) that by (auto simp: nn_updates_def split: option.splits)
qed

lemma nn_visit_measure:
  assumes cd: "0 \<le> cd" "cd < depth" and cur: "cur \<in> ball f start (nat cd)"
    and z: "z \<in> set (f cur)"
    and v: "nn_visit depth cd z (dist, deq) = (dist', deq')"
  shows "nn_measure f start depth (dist', deq') \<le> nn_measure f start depth (dist, deq)"
proof -
  note eq = nn_visit_eq[OF cd(2) v]
  let ?B = "ball f start (nat depth)"
  show ?thesis
  proof (cases "nn_updates cd dist z")
    case False
    with eq have "map_of dist' = map_of dist" "deq' = deq" by simp_all
    then show ?thesis by (simp add: nn_measure_def nn_val_def)
  next
    case True
    have m': "map_of dist' = (map_of dist)(z \<mapsto> cd + 1)" using eq(1) True by simp
    have q': "deq' = deq @ [z]" using eq(3) True by simp
    have "Suc (nat cd) \<le> nat depth" using cd by simp
    with ball_step[OF cur z] ball_mono have zB: "z \<in> ?B" by blast
    have less: "nn_val depth dist' z < nn_val depth dist z"
      using True cd m' by (auto simp: nn_val_def nn_updates_def split: option.splits)
    have same: "\<And>x. x \<noteq> z \<Longrightarrow> nn_val depth dist' x = nn_val depth dist x"
      using m' by (simp add: nn_val_def)
    have "(\<Sum>x \<in> ?B. nn_val depth dist' x) = nn_val depth dist' z + (\<Sum>x \<in> ?B - {z}. nn_val depth dist' x)"
      using zB by (simp add: sum.remove finite_ball)
    also have "(\<Sum>x \<in> ?B - {z}. nn_val depth dist' x) = (\<Sum>x \<in> ?B - {z}. nn_val depth dist x)"
      using same by (intro sum.cong) auto
    finally have "(\<Sum>x \<in> ?B. nn_val depth dist' x) + 1 \<le>
        nn_val depth dist z + (\<Sum>x \<in> ?B - {z}. nn_val depth dist x)"
      using less by simp
    also have "\<dots> = (\<Sum>x \<in> ?B. nn_val depth dist x)"
      using zB by (simp add: sum.remove finite_ball)
    finally show ?thesis using q' by (simp add: nn_measure_def)
  qed
qed

lemma nn_fold:
  assumes cd: "0 \<le> cd" "cd < depth" and cur: "cur \<in> ball f start (nat cd)"
  shows "set zs \<subseteq> set (f cur) \<Longrightarrow> nn_sound f start depth st \<Longrightarrow> nn_pending f depth P st \<Longrightarrow>
    nn_sound f start depth (fold (nn_visit depth cd) zs st) \<and>
    nn_pending f depth P (fold (nn_visit depth cd) zs st) \<and>
    nn_measure f start depth (fold (nn_visit depth cd) zs st) \<le> nn_measure f start depth st \<and>
    (\<forall>z \<in> set zs. \<exists>k'. map_of (fst (fold (nn_visit depth cd) zs st)) z = Some k' \<and> k' \<le> cd + 1) \<and>
    (\<forall>x k. map_of (fst st) x = Some k \<longrightarrow> k \<le> cd + 1 \<longrightarrow>
       map_of (fst (fold (nn_visit depth cd) zs st)) x = Some k)"
proof (induction zs arbitrary: st)
  case Nil
  then show ?case by simp
next
  case (Cons z zs)
  obtain dist deq where st: "st = (dist, deq)" by (cases st)
  obtain dist1 deq1 where v: "nn_visit depth cd z (dist, deq) = (dist1, deq1)"
    by (cases "nn_visit depth cd z (dist, deq)")
  from Cons.prems(1) have z: "z \<in> set (f cur)" and zs: "set zs \<subseteq> set (f cur)" by simp_all
  have s1: "nn_sound f start depth (dist1, deq1)"
    using nn_visit_sound[OF cd cur z _ v] Cons.prems(2) st by simp
  have p1: "nn_pending f depth P (dist1, deq1)"
    using nn_visit_pending[OF cd(2) _ v] Cons.prems(3) st by simp
  have m1: "nn_measure f start depth (dist1, deq1) \<le> nn_measure f start depth st"
    using nn_visit_measure[OF cd cur z v] st by simp
  note d1 = nn_visit_done[OF cd(2) v]
  let ?r = "fold (nn_visit depth cd) zs (dist1, deq1)"
  note IH = Cons.IH[OF zs s1 p1]
  have f: "fold (nn_visit depth cd) (z # zs) st = ?r" using st v by simp
  have stable: "\<And>x k. map_of dist1 x = Some k \<Longrightarrow> k \<le> cd + 1 \<Longrightarrow> map_of (fst ?r) x = Some k"
    using IH by simp
  have dn: "\<forall>y \<in> set (z # zs). \<exists>k'. map_of (fst ?r) y = Some k' \<and> k' \<le> cd + 1"
  proof
    fix y assume "y \<in> set (z # zs)"
    then consider "y = z" | "y \<in> set zs" by auto
    then show "\<exists>k'. map_of (fst ?r) y = Some k' \<and> k' \<le> cd + 1"
    proof cases
      case 1
      from d1(1) obtain k' where "map_of dist1 z = Some k'" "k' \<le> cd + 1" by blast
      with stable[of z k'] 1 show ?thesis by auto
    next
      case 2
      with IH show ?thesis by blast
    qed
  qed
  have keep: "\<forall>x k. map_of (fst st) x = Some k \<longrightarrow> k \<le> cd + 1 \<longrightarrow> map_of (fst ?r) x = Some k"
    using d1(3) stable st by auto
  from IH m1 dn keep show ?case unfolding f by auto
qed

lemma key_has_value: "x \<in> fst ` set d \<Longrightarrow> \<exists>k. map_of d x = Some k"
  by (cases "map_of d x") (auto simp: map_of_eq_None_iff)

lemma nn_final:
  assumes s: "nn_sound f start depth (dist, [])" and p: "nn_pending f depth {} (dist, [])"
  shows "set (map fst dist) = ball f start (nat depth)"
proof -
  from s have C: "map_of dist start = Some 0"
    and D: "\<And>x k. map_of dist x = Some k \<Longrightarrow>
           0 \<le> k \<and> k \<le> max depth 0 \<and> x \<in> ball f start (nat k)"
    by (auto simp: nn_sound_def)
  have sub: "set (map fst dist) \<subseteq> ball f start (nat depth)"
  proof
    fix x assume "x \<in> set (map fst dist)"
    then obtain k where k: "map_of dist x = Some k" using key_has_value[of x dist] by auto
    from D[OF k] have "nat k \<le> nat depth" "x \<in> ball f start (nat k)" by auto
    then show "x \<in> ball f start (nat depth)" using ball_mono by blast
  qed
  have sup: "k \<le> nat depth \<Longrightarrow> \<forall>x \<in> ball f start k. \<exists>k'. map_of dist x = Some k' \<and> k' \<le> int k" for k
  proof (induction k)
    case 0
    with C show ?case by simp
  next
    case (Suc k)
    then have IH: "\<forall>x \<in> ball f start k. \<exists>k'. map_of dist x = Some k' \<and> k' \<le> int k" by simp
    show ?case
    proof
      fix x assume "x \<in> ball f start (Suc k)"
      then consider "x \<in> ball f start k" | u where "u \<in> ball f start k" "x \<in> set (f u)" by auto
      then show "\<exists>k'. map_of dist x = Some k' \<and> k' \<le> int (Suc k)"
      proof cases
        case 1
        with IH show ?thesis by fastforce
      next
        case 2
        with IH obtain ku where ku: "map_of dist u = Some ku" "ku \<le> int k" by blast
        with Suc.prems have "ku < depth" by simp
        with p ku(1) have "nn_closed f dist u ku" by (auto simp: nn_pending_def)
        with 2(2) obtain k' where "map_of dist x = Some k'" "k' \<le> ku + 1"
          by (auto simp: nn_closed_def)
        with ku(2) show ?thesis by auto
      qed
    qed
  qed
  have "ball f start (nat depth) \<subseteq> set (map fst dist)"
  proof
    fix x assume "x \<in> ball f start (nat depth)"
    with sup[of "nat depth"] obtain k' where "map_of dist x = Some k'" by blast
    then show "x \<in> set (map fst dist)" using map_of_Some_key by fastforce
  qed
  with sub show ?thesis by blast
qed

lemma nn_loop_total:
  "nn_sound f start depth st \<Longrightarrow> nn_pending f depth {} st \<Longrightarrow>
   \<exists>r. nn_loop f depth st = Some (Inr r) \<and> distinct r \<and> set r = ball f start (nat depth)"
proof (induction st rule: measure_induct_rule[where f = "nn_measure f start depth"])
  case (less st)
  obtain dist deq where st: "st = (dist, deq)" by (cases st)
  from less.prems(1) st have A: "distinct (map fst dist)" and B: "set deq \<subseteq> fst ` set dist"
    and D: "\<And>x k. map_of dist x = Some k \<Longrightarrow>
           0 \<le> k \<and> k \<le> max depth 0 \<and> x \<in> ball f start (nat k)"
    by (auto simp: nn_sound_def)
  show ?case
  proof (cases deq)
    case Nil
    have "nn_loop f depth st = Some (Inr (map fst dist))"
      using st Nil by (subst nn_loop.simps) simp
    moreover have "set (map fst dist) = ball f start (nat depth)"
      using nn_final less.prems st Nil by blast
    ultimately show ?thesis using A by blast
  next
    case (Cons cur deq')
    with B obtain cd where cd: "map_of dist cur = Some cd"
      using key_has_value[of cur dist] by auto
    from D[OF cd] have cd0: "0 \<le> cd" and curb: "cur \<in> ball f start (nat cd)" by simp_all
    have s': "nn_sound f start depth (dist, deq')"
      using less.prems(1) st Cons by (auto simp: nn_sound_def)
    show ?thesis
    proof (cases "cd < depth")
      case False
      have eq: "nn_loop f depth st = nn_loop f depth (dist, deq')"
        using st Cons cd False by (subst nn_loop.simps) simp
      have p': "nn_pending f depth {} (dist, deq')"
        unfolding nn_pending_def prod.case
      proof (intro allI impI)
        fix y k assume a: "map_of dist y = Some k" "k < depth"
        with less.prems(2) st Cons have "y = cur \<or> y \<in> set deq' \<or> nn_closed f dist y k"
          by (auto simp: nn_pending_def)
        moreover have "y \<noteq> cur" using a cd False by auto
        ultimately show "y \<in> {} \<or> y \<in> set deq' \<or> nn_closed f dist y k" by blast
      qed
      have "nn_measure f start depth (dist, deq') < nn_measure f start depth st"
        using st Cons by (simp add: nn_measure_def)
      from less.IH[OF this s' p'] eq show ?thesis by simp
    next
      case True
      let ?st1 = "fold (nn_visit depth cd) (f cur) (dist, deq')"
      have eq: "nn_loop f depth st = nn_loop f depth ?st1"
        using st Cons cd True by (subst nn_loop.simps) simp
      have p': "nn_pending f depth {cur} (dist, deq')"
        using less.prems(2) st Cons by (auto simp: nn_pending_def)
      note F = nn_fold[OF cd0 True curb subset_refl s' p']
      from F have s1: "nn_sound f start depth ?st1" and pc: "nn_pending f depth {cur} ?st1"
        and m1: "nn_measure f start depth ?st1 \<le> nn_measure f start depth (dist, deq')"
        and dn: "\<forall>z \<in> set (f cur). \<exists>k'. map_of (fst ?st1) z = Some k' \<and> k' \<le> cd + 1"
        and keep: "map_of (fst ?st1) cur = Some cd"
        using cd by auto
      obtain dist1 deq1 where st1: "?st1 = (dist1, deq1)" by (cases ?st1)
      have closed: "nn_closed f dist1 cur cd"
        using dn st1 by (simp add: nn_closed_def)
      have p1: "nn_pending f depth {} ?st1"
        unfolding st1 nn_pending_def prod.case
      proof (intro allI impI)
        fix y k assume a: "map_of dist1 y = Some k" "k < depth"
        with pc st1 have "y = cur \<or> y \<in> set deq1 \<or> nn_closed f dist1 y k"
          by (auto simp: nn_pending_def)
        moreover have "y = cur \<Longrightarrow> nn_closed f dist1 y k"
          using a keep st1 closed by simp
        ultimately show "y \<in> {} \<or> y \<in> set deq1 \<or> nn_closed f dist1 y k" by blast
      qed
      have "nn_measure f start depth (dist, deq') < nn_measure f start depth st"
        using st Cons by (simp add: nn_measure_def)
      with m1 have "nn_measure f start depth ?st1 < nn_measure f start depth st" by simp
      from less.IH[OF this s1 p1] eq show ?thesis by simp
    qed
  qed
qed

lemma node_neighbourhood_ball:
  "\<exists>r. node_neighbourhood n depth f = Some (Inr r) \<and> distinct r \<and> set r = ball f n (nat depth)"
  unfolding node_neighbourhood_def
proof (rule nn_loop_total)
  show "nn_sound f n depth ([(n, 0)], [n])" by (simp add: nn_sound_def)
  show "nn_pending f depth {} ([(n, 0)], [n])" by (simp add: nn_pending_def)
qed

lemma node_neighbourhood_0: "node_neighbourhood n 0 f = Some (Inr [n])"
  unfolding node_neighbourhood_def
  by (subst nn_loop.simps, simp, subst nn_loop.simps, simp)

section \<open>Claims\<close>




subsection \<open>Backward search\<close>



















lemma merge_cycle_steps:
  "fold (bbfs_visit merge_cycle [''Conv'']) (in_nodes merge_cycle ''Merge'') ([], []) = ([''d2''], [])"
  "fold (bbfs_visit merge_cycle [''Conv'']) (in_nodes merge_cycle ''d2'') ([], []) = ([''Next''], [])"
  "fold (bbfs_visit merge_cycle [''Conv'']) (in_nodes merge_cycle ''Next'') ([], []) = ([''d1''], [])"
  "fold (bbfs_visit merge_cycle [''Conv'']) (in_nodes merge_cycle ''d1'') ([], []) = ([''Merge''], [])"
  by (simp_all add: in_nodes_def in_edges_def node_kind_def node_op_def node_val_def op_node_def
      data_node_def merge_cycle_def)

text \<open>From none of the four queues of the cycle does the loop return.\<close>

lemma merge_cycle_no_result:
  assumes "bbfs_loop g ops q ret = Some y"
  shows "\<not> (g = merge_cycle \<and> ops = [''Conv''] \<and> ret = [] \<and>
            q \<in> {[''Merge''], [''d2''], [''Next''], [''d1'']})"
proof (rule bbfs_loop.raw_induct[where P = "\<lambda>g ops q ret y.
      \<not> (g = merge_cycle \<and> ops = [''Conv''] \<and> ret = [] \<and>
         q \<in> {[''Merge''], [''d2''], [''Next''], [''d1'']})", OF _ assms])
  fix loop g ops q ret and y :: "node_id list"
  assume IH: "\<And>g ops q ret y. loop g ops q ret = Some y \<Longrightarrow>
      \<not> (g = merge_cycle \<and> ops = [''Conv''] \<and> ret = [] \<and>
         q \<in> {[''Merge''], [''d2''], [''Next''], [''d1'']})"
    and unfolded: "(case q of [] \<Rightarrow> Some ret
      | node # q' \<Rightarrow>
          (case fold (bbfs_visit g ops) (in_nodes g node) (q', ret) of
             (q'', ret') \<Rightarrow> loop g ops q'' ret')) = Some y"
  show "\<not> (g = merge_cycle \<and> ops = [''Conv''] \<and> ret = [] \<and>
          q \<in> {[''Merge''], [''d2''], [''Next''], [''d1'']})"
  proof
    assume a: "g = merge_cycle \<and> ops = [''Conv''] \<and> ret = [] \<and>
      q \<in> {[''Merge''], [''d2''], [''Next''], [''d1'']}"
    then have "\<exists>q' \<in> {[''Merge''], [''d2''], [''Next''], [''d1'']}.
        loop merge_cycle [''Conv''] q' [] = Some y"
      using unfolded by (auto simp: merge_cycle_steps)
    then show False using IH by blast
  qed
qed

text \<open>
  C2. \<^verbatim>\<open>backward_bfs_for_operation\<close> keeps no set of visited nodes. On the loop
  \<open>Merge \<rightarrow> d1 \<rightarrow> NextIteration \<rightarrow> d2 \<rightarrow> Merge\<close>, searched backwards from \<open>Merge\<close> for
  \<open>Conv\<close>, the queue holds \<open>Merge\<close>, \<open>d2\<close>, \<open>NextIteration\<close>, \<open>d1\<close> and \<open>Merge\<close> again,
  for ever: the call does not return.
\<close>

theorem C2_backward_search_diverges:
  "backward_bfs_for_operation merge_cycle ''Merge'' [''Conv''] = None"
proof (cases "backward_bfs_for_operation merge_cycle ''Merge'' [''Conv'']")
  case None
  then show ?thesis .
next
  case (Some y)
  then show ?thesis
    using merge_cycle_no_result[OF Some[unfolded backward_bfs_for_operation_def]] by simp
qed

lemma forward_visited_chain4_D: "forward_visited chain4 [''D''] = {''D''}"
  by (simp add: forward_visited_def dfs_def chain4_def out_edges_def)

text \<open>
  C3. The reachability check of \<^verbatim>\<open>sub_graph_between_nodes\<close> runs \<^verbatim>\<open>dfs\<close> from every start
  node into one shared set, which thereby holds exactly the nodes that are reachable from
  some start node along the edges. Whenever some end node is reachable from no start node,
  the call raises the error that names such an end node and the list of start nodes.
\<close>

theorem C3_unreachable_end_node:
  "(\<forall>g start_nodes. forward_visited g start_nodes =
       {v. \<exists>s \<in> set start_nodes. (s, v) \<in> (set (edges g))\<^sup>*}) \<and>
   (\<forall>g start_nodes end_nodes.
      (\<exists>e \<in> set end_nodes. \<forall>s \<in> set start_nodes. (s, e) \<notin> (set (edges g))\<^sup>*) \<longrightarrow>
      (\<exists>e \<in> set end_nodes. (\<forall>s \<in> set start_nodes. (s, e) \<notin> (set (edges g))\<^sup>*) \<and>
         sub_graph_between_nodes g start_nodes end_nodes =
           Some (Inl (EndNodeNotReachable e start_nodes))))"
proof (intro conjI allI impI)
  fix g :: graph and start_nodes :: "node_id list"
  show "forward_visited g start_nodes = {v. \<exists>s \<in> set start_nodes. (s, v) \<in> (set (edges g))\<^sup>*}"
    by (auto simp: forward_visited_reach reach_def)
next
  fix g :: graph and start_nodes end_nodes :: "node_id list"
  assume "\<exists>e \<in> set end_nodes. \<forall>s \<in> set start_nodes. (s, e) \<notin> (set (edges g))\<^sup>*"
  then have "\<exists>e \<in> set end_nodes. e \<notin> forward_visited g start_nodes"
    by (auto simp: forward_visited_reach reach_def)
  from find_first[OF this] obtain e where
    e: "find (\<lambda>e. e \<notin> forward_visited g start_nodes) end_nodes = Some e"
      "e \<in> set end_nodes" "e \<notin> forward_visited g start_nodes"
    by blast
  have "sub_graph_between_nodes g start_nodes end_nodes =
      Some (Inl (EndNodeNotReachable e start_nodes))"
    using e(1) by (simp add: sub_graph_between_nodes_def split: prod.split)
  moreover have "\<forall>s \<in> set start_nodes. (s, e) \<notin> (set (edges g))\<^sup>*"
    using e(3) by (auto simp: forward_visited_reach reach_def)
  ultimately show "\<exists>e \<in> set end_nodes. (\<forall>s \<in> set start_nodes. (s, e) \<notin> (set (edges g))\<^sup>*) \<and>
         sub_graph_between_nodes g start_nodes end_nodes =
           Some (Inl (EndNodeNotReachable e start_nodes))"
    using e(2) by blast
qed

theorem C3_unreachable_end_node_witness:
  "(\<exists>e \<in> set [''A'']. \<forall>s \<in> set [''D'']. (s, e) \<notin> (set (edges chain4))\<^sup>*) \<and>
   sub_graph_between_nodes chain4 [''D''] [''A''] =
     Some (Inl (EndNodeNotReachable ''A'' [''D'']))"
proof -
  note fv = C3_unreachable_end_node[THEN conjunct1, rule_format]
    and err = C3_unreachable_end_node[THEN conjunct2, rule_format]
  have "''A'' \<notin> forward_visited chain4 [''D'']"
    by (simp add: forward_visited_chain4_D)
  then have h: "\<exists>e \<in> set [''A'']. \<forall>s \<in> set [''D'']. (s, e) \<notin> (set (edges chain4))\<^sup>*"
    unfolding fv[of chain4 "[''D'']"] by simp
  from err[OF h] h show ?thesis by simp
qed

text \<open>
  C8, as stated, fails: on the chain \<open>A \<rightarrow> B \<rightarrow> C \<rightarrow> D\<close> the run from \<open>A\<close> and the run
  from \<open>B\<close>, each with an empty visited set of its own, both return \<open>B\<close>, \<open>C\<close> and
  \<open>D\<close>.
\<close>

theorem C8_counterexample:
  "fst (dfs chain4 ''A'' {}) = [''D'', ''C'', ''B'', ''A''] \<and>
   fst (dfs chain4 ''B'' {}) = [''D'', ''C'', ''B''] \<and>
   set (fst (dfs chain4 ''A'' {})) \<inter> set (fst (dfs chain4 ''B'' {})) \<noteq> {}"
  by (simp add: dfs_def chain4_def out_edges_def)

text \<open>
  C8, amended. A run of \<^verbatim>\<open>dfs\<close> with an empty visited set returns exactly the nodes that
  are reachable from its start node. So two runs, each with an empty visited set of its
  own, return disjoint sets of nodes if and only if no node is reachable from both start
  nodes.
\<close>

theorem C8_dfs_disjoint:
  "set (fst (dfs g a {})) = {v. (a, v) \<in> (set (edges g))\<^sup>*} \<and>
   (set (fst (dfs g a {})) \<inter> set (fst (dfs g b {})) = {} \<longleftrightarrow>
    \<not> (\<exists>v. (a, v) \<in> (set (edges g))\<^sup>* \<and> (b, v) \<in> (set (edges g))\<^sup>*))"
  by (auto simp: dfs_order_fresh reach_def)

theorem C8_dfs_disjoint_witness:
  "set (fst (dfs two_chains ''A'' {})) \<inter> set (fst (dfs two_chains ''C'' {})) = {} \<and>
   \<not> (\<exists>v. (''A'', v) \<in> (set (edges two_chains))\<^sup>* \<and> (''C'', v) \<in> (set (edges two_chains))\<^sup>*)"
proof -
  have d: "set (fst (dfs two_chains ''A'' {})) \<inter> set (fst (dfs two_chains ''C'' {})) = {}"
    by (simp add: dfs_def two_chains_def out_edges_def)
  with C8_dfs_disjoint[of two_chains "''A''" "''C''"] show ?thesis by blast
qed

lemma ranked_acyclic:
  assumes "ranked_list L prev"
  shows "acyclic {(x, c). prev x = Some c}"
proof (rule acyclicI_order[where f = "first_index L"])
  fix a b assume "(a, b) \<in> {(x, c). prev x = Some c}"
  with assms show "first_index L b < first_index L a"
    by (simp add: ranked_list_def)
qed

lemma grow_add_assigns:
  assumes "grow_add cur x (d, v, p) = (d', v', p')"
  shows "v \<subseteq> v' \<and> (\<forall>y. p' y \<noteq> p y \<longrightarrow> y \<notin> v \<and> y \<in> v' \<and> p' y = Some cur)"
  using assms by (auto split: if_splits)

text \<open>What was visited stays visited, and keeps its back-pointer.\<close>

definition keeps :: "grow_state \<Rightarrow> grow_state \<Rightarrow> bool" where
  "keeps st st' \<longleftrightarrow>
     (case st of (d, v, p) \<Rightarrow> case st' of (d', v', p') \<Rightarrow> v \<subseteq> v' \<and> (\<forall>y \<in> v. p' y = p y))"

lemma keeps_refl: "keeps st st"
  by (simp add: keeps_def split: prod.split)

lemma keeps_grow_add: "keeps st0 st \<Longrightarrow> keeps st0 (grow_add cur x st)"
  by (cases st0; cases st) (auto simp: keeps_def)

lemma keeps_grow_out:
  assumes "keeps st0 st"
  shows "keeps st0 (grow_out g E cur st)"
proof (cases "cur \<in> set E")
  case True
  then show ?thesis using assms by (simp add: grow_out_def)
next
  case False
  have "keeps st0 (fold (grow_add cur) (map snd (out_edges g cur)) st)"
    using assms by (intro fold_inv[where P = "keeps st0"] keeps_grow_add)
  then show ?thesis using False by (simp add: grow_out_def)
qed

lemma keeps_grow_in:
  assumes "keeps st0 st"
  shows "keeps st0 (grow_in g S cur st)"
  unfolding grow_in_def
proof (rule fold_inv[where P = "keeps st0"])
  show "keeps st0 st" by fact
next
  fix x and s :: grow_state
  assume "keeps st0 s"
  then show "keeps st0 (if cur \<notin> set S then grow_add cur x s else s)"
    by (simp add: keeps_grow_add)
qed

lemma keeps_pop: "keeps st0 (cur # d, v, p) \<Longrightarrow> keeps st0 (d, v, p)"
  by (cases st0) (simp add: keeps_def)

lemma grow_keeps:
  assumes "grow g S E (d, v, p) ns = (ns', v', p')"
  shows "v \<subseteq> v' \<and> (\<forall>y \<in> v. p' y = p y)"
proof -
  have "\<exists>v' p' ns'. grow g S E (d, v, p) ns = (ns', v', p') \<and> keeps (d, v, p) ([], v', p')"
  proof (rule grow_inv[where I = "\<lambda>st ns. keeps (d, v, p) st"])
    show "keeps (d, v, p) (d, v, p)" by (rule keeps_refl)
  next
    fix cur d1 v1 and p1 :: "node_id \<rightharpoonup> node_id"
    assume "keeps (d, v, p) (cur # d1, v1, p1)"
    then have "keeps (d, v, p) (d1, v1, p1)" by (rule keeps_pop)
    then show "keeps (d, v, p) (grow_in g S cur (grow_out g E cur (d1, v1, p1)))"
      by (intro keeps_grow_in keeps_grow_out)
  qed
  with assms show ?thesis by (auto simp: keeps_def)
qed

text \<open>
  C10. In \<^verbatim>\<open>sub_graph_between_nodes\<close> a back-pointer is assigned only to a node that is not
  yet visited, together with marking it visited; and from any state of the growth loop
  on, the nodes visited so far stay visited and keep their back-pointers to the end. So
  each back-pointer is assigned at most once, when the node is first visited. The
  back-pointers left by the growth are acyclic, and the loop that follows them, from any
  node and with any path collected so far, returns.
\<close>

theorem C10_prev_forest:
  "(\<forall>cur x d v p d' v' p'. grow_add cur x (d, v, p) = (d', v', p') \<longrightarrow>
      v \<subseteq> v' \<and> (\<forall>y. p' y \<noteq> p y \<longrightarrow> y \<notin> v \<and> y \<in> v' \<and> p' y = Some cur)) \<and>
   (\<forall>g start_nodes end_nodes d v p ns ns' v' p'.
      grow g start_nodes end_nodes (d, v, p) ns = (ns', v', p') \<longrightarrow>
      v \<subseteq> v' \<and> (\<forall>y \<in> v. p' y = p y)) \<and>
   (\<forall>g start_nodes end_nodes ns visited prev.
      grown g start_nodes end_nodes = (ns, visited, prev) \<longrightarrow>
      acyclic {(x, c). prev x = Some c} \<and>
      (\<forall>cur_node path. \<exists>r. prev_path prev cur_node path = Some r))"
proof -
  have p1: "\<forall>cur x d v p d' v' p'. grow_add cur x (d, v, p) = (d', v', p') \<longrightarrow>
      v \<subseteq> v' \<and> (\<forall>y. p' y \<noteq> p y \<longrightarrow> y \<notin> v \<and> y \<in> v' \<and> p' y = Some cur)"
    by (intro allI impI, erule grow_add_assigns)
  have p2: "\<forall>g start_nodes end_nodes d v p ns ns' v' p'.
      grow g start_nodes end_nodes (d, v, p) ns = (ns', v', p') \<longrightarrow>
      v \<subseteq> v' \<and> (\<forall>y \<in> v. p' y = p y)"
    by (intro allI impI, erule grow_keeps)
  have p3: "\<forall>g start_nodes end_nodes ns visited prev.
      grown g start_nodes end_nodes = (ns, visited, prev) \<longrightarrow>
      acyclic {(x, c). prev x = Some c} \<and>
      (\<forall>cur_node path. \<exists>r. prev_path prev cur_node path = Some r)"
  proof (intro allI impI)
    fix g start_nodes end_nodes ns visited and prev :: "node_id \<rightharpoonup> node_id"
    assume a: "grown g start_nodes end_nodes = (ns, visited, prev)"
    from grown_ranked[OF a] have "ranked_list ns prev"
      by (simp add: ranked_def)
    then have "acyclic {(x, c). prev x = Some c}"
      by (rule ranked_acyclic)
    moreover have "\<forall>cur_node path. \<exists>r. prev_path prev cur_node path = Some r"
      using grown_prev_path[OF a] by blast
    ultimately show "acyclic {(x, c). prev x = Some c} \<and>
      (\<forall>cur_node path. \<exists>r. prev_path prev cur_node path = Some r)" ..
  qed
  from p1 p2 p3 show ?thesis by (intro conjI)
qed

theorem C10_prev_forest_witness:
  "grow_add ''B'' ''W'' ([], {''A'', ''B''}, [''B'' \<mapsto> ''A'']) =
     ([''W''], {''A'', ''B'', ''W''}, [''B'' \<mapsto> ''A'', ''W'' \<mapsto> ''B'']) \<and>
   {''A'', ''B''} \<subseteq> {''A'', ''B'', ''W''} \<and>
   grow side_input [''A''] [''B''] ([''A''], {''A''}, Map.empty) [] =
     ([''A'', ''B'', ''W''], {''A'', ''B'', ''W''}, [''B'' \<mapsto> ''A'', ''W'' \<mapsto> ''B'']) \<and>
   [''B'' \<mapsto> ''A'', ''W'' \<mapsto> ''B''] ''A'' = None \<and>
   acyclic {(x, c). [''B'' \<mapsto> ''A'', ''W'' \<mapsto> ''B''] x = Some c} \<and>
   (\<exists>r. prev_path [''B'' \<mapsto> ''A'', ''W'' \<mapsto> ''B''] (Some ''W'') [] = Some r)"
proof -
  note one = C10_prev_forest[THEN conjunct1, rule_format]
    and keep = C10_prev_forest[THEN conjunct2, THEN conjunct1, rule_format]
    and forest = C10_prev_forest[THEN conjunct2, THEN conjunct2, rule_format]
  have a: "grow_add ''B'' ''W'' ([], {''A'', ''B''}, [''B'' \<mapsto> ''A'']) =
     ([''W''], {''A'', ''B'', ''W''}, [''B'' \<mapsto> ''A'', ''W'' \<mapsto> ''B''])"
    by (simp add: insert_commute)
  have g: "grow side_input [''A''] [''B''] ([''A''], {''A''}, Map.empty) [] =
     ([''A'', ''B'', ''W''], {''A'', ''B'', ''W''}, [''B'' \<mapsto> ''A'', ''W'' \<mapsto> ''B''])"
    using grown_side_input by (simp add: grown_def)
  have k: "[''B'' \<mapsto> ''A'', ''W'' \<mapsto> ''B''] ''A'' = None"
    using keep[OF g] by simp
  have s: "{''A'', ''B''} \<subseteq> {''A'', ''B'', ''W''}"
    using one[OF a] by blast
  note f = forest[OF grown_side_input]
  have f1: "acyclic {(x, c). [''B'' \<mapsto> ''A'', ''W'' \<mapsto> ''B''] x = Some c}"
    using f by (rule conjunct1)
  have f2: "\<exists>r. prev_path [''B'' \<mapsto> ''A'', ''W'' \<mapsto> ''B''] (Some ''W'') [] = Some r"
    using f[THEN conjunct2] by (elim allE)
  from a s g k f1 f2 show ?thesis by (intro conjI)
qed

subsection \<open>The two fatal conditions\<close>

lemma sgbn_placeholder:
  assumes g: "grown g S E = (ns, visited, prev)"
    and p: "\<exists>n \<in> set ns. node_op g n = Some ''Placeholder''"
  shows "\<exists>err. sub_graph_between_nodes g S E = Some (Inl err)"
    and "(\<forall>e \<in> set E. \<exists>s \<in> set S. (s, e) \<in> (set (edges g))\<^sup>*) \<Longrightarrow>
      \<exists>n. find (\<lambda>n. node_op g n = Some ''Placeholder'') ns = Some n \<and>
          sub_graph_between_nodes g S E = Some (Inl (ContainsInputNode n))"
proof -
  from find_first[OF p] obtain n where
    n: "find (\<lambda>n. node_op g n = Some ''Placeholder'') ns = Some n" by blast
  from grown_prev_path[OF g] obtain path where
    path: "prev_path prev (Some n) [] = Some path" by blast
  show "\<exists>err. sub_graph_between_nodes g S E = Some (Inl err)"
    using g n path by (simp add: sub_graph_between_nodes_def split: option.split)
  assume "\<forall>e \<in> set E. \<exists>s \<in> set S. (s, e) \<in> (set (edges g))\<^sup>*"
  then have "find (\<lambda>e. e \<notin> forward_visited g S) E = None"
    unfolding find_None_all by (auto simp: forward_visited_reach reach_def)
  then have "sub_graph_between_nodes g S E = Some (Inl (ContainsInputNode n))"
    using g n path by (simp add: sub_graph_between_nodes_def)
  with n show "\<exists>n. find (\<lambda>n. node_op g n = Some ''Placeholder'') ns = Some n \<and>
          sub_graph_between_nodes g S E = Some (Inl (ContainsInputNode n))"
    by blast
qed

lemma sgbn_result:
  assumes "sub_graph_between_nodes g S E = Some (Inr ns)"
  shows "ns = fst (grown g S E)" and "\<forall>n \<in> set ns. node_op g n \<noteq> Some ''Placeholder''"
proof -
  obtain ns' visited prev where g: "grown g S E = (ns', visited, prev)"
    by (cases "grown g S E")
  from assms g have f: "find (\<lambda>n. node_op g n = Some ''Placeholder'') ns' = None" and e: "ns = ns'"
    by (auto simp: sub_graph_between_nodes_def split: option.splits)
  from e g show "ns = fst (grown g S E)" by simp
  from f e show "\<forall>n \<in> set ns. node_op g n \<noteq> Some ''Placeholder''"
    unfolding find_None_all by simp
qed

lemma grown_placeholder_input:
  "grown placeholder_input [''A''] [''B''] =
     ([''A'', ''B'', ''P''], {''A'', ''B'', ''P''}, [''B'' \<mapsto> ''A'', ''P'' \<mapsto> ''B''])"
  by (simp add: grown_def placeholder_input_def grow_in_def grow_out_def in_edges_def out_edges_def
      insert_commute)

lemma fv_placeholder_input: "forward_visited placeholder_input [''A''] = {''A'', ''B''}"
  by (simp add: forward_visited_def dfs_def placeholder_input_def out_edges_def insert_commute)

lemma sgbn_placeholder_input:
  "sub_graph_between_nodes placeholder_input [''A''] [''B''] = Some (Inl (ContainsInputNode ''P''))"
  by (simp add: sub_graph_between_nodes_def grown_placeholder_input fv_placeholder_input)
     (simp add: node_op_def placeholder_input_def op_node_def prev_path.simps)

lemma sgbn_unreachable:
  assumes "\<exists>e \<in> set E. \<forall>s \<in> set S. (s, e) \<notin> (set (edges g))\<^sup>*"
  shows "\<exists>e \<in> set E. (\<forall>s \<in> set S. (s, e) \<notin> (set (edges g))\<^sup>*) \<and>
           sub_graph_between_nodes g S E = Some (Inl (EndNodeNotReachable e S))"
proof -
  from assms have "\<exists>e \<in> set E. e \<notin> forward_visited g S"
    by (auto simp: forward_visited_reach reach_def)
  from find_first[OF this] obtain e where
    e: "find (\<lambda>e. e \<notin> forward_visited g S) E = Some e" "e \<in> set E" "e \<notin> forward_visited g S"
    by blast
  have "sub_graph_between_nodes g S E = Some (Inl (EndNodeNotReachable e S))"
    using e(1) by (simp add: sub_graph_between_nodes_def split: prod.split)
  moreover have "\<forall>s \<in> set S. (s, e) \<notin> (set (edges g))\<^sup>*"
    using e(3) by (auto simp: forward_visited_reach reach_def)
  ultimately show ?thesis using e(2) by blast
qed

lemma grown_placeholder_apart:
  "grown placeholder_apart [''A''] [''B'', ''Z''] =
     ([''A'', ''B'', ''P''], {''A'', ''B'', ''P''}, [''B'' \<mapsto> ''A'', ''P'' \<mapsto> ''B''])"
  by (simp add: grown_def placeholder_apart_def grow_in_def grow_out_def in_edges_def out_edges_def
      insert_commute)

lemma fv_placeholder_apart: "forward_visited placeholder_apart [''A''] = {''A'', ''B''}"
  by (simp add: forward_visited_def dfs_def placeholder_apart_def out_edges_def insert_commute)

lemma sgbn_placeholder_apart:
  "sub_graph_between_nodes placeholder_apart [''A''] [''B'', ''Z''] =
     Some (Inl (EndNodeNotReachable ''Z'' [''A'']))"
  by (simp add: sub_graph_between_nodes_def grown_placeholder_apart fv_placeholder_apart)

text \<open>
  C4, as stated, fails. With the edges \<open>A \<rightarrow> B\<close> and \<open>P \<rightarrow> B\<close>, the node \<open>Z\<close> apart,
  start node \<open>A\<close> and end nodes \<open>B\<close> and \<open>Z\<close>, the region holds the \<^verbatim>\<open>Placeholder\<close> node
  \<open>P\<close>, and the error that is raised names the unreachable end node \<open>Z\<close>, not \<open>P\<close>:
  the reachability check comes first.
\<close>

theorem C4_counterexample:
  "grown placeholder_apart [''A''] [''B'', ''Z''] =
     ([''A'', ''B'', ''P''], {''A'', ''B'', ''P''}, [''B'' \<mapsto> ''A'', ''P'' \<mapsto> ''B'']) \<and>
   node_op placeholder_apart ''P'' = Some ''Placeholder'' \<and>
   sub_graph_between_nodes placeholder_apart [''A''] [''B'', ''Z''] =
     Some (Inl (EndNodeNotReachable ''Z'' [''A''])) \<and>
   sub_graph_between_nodes placeholder_apart [''A''] [''B'', ''Z''] \<noteq>
     Some (Inl (ContainsInputNode ''P''))"
  by (simp add: grown_placeholder_apart sgbn_placeholder_apart)
     (simp add: node_op_def placeholder_apart_def op_node_def)

text \<open>
  C4, amended. If a node of the grown region carries the op tag \<^verbatim>\<open>Placeholder\<close>,
  \<^verbatim>\<open>sub_graph_between_nodes\<close> raises an error. When every end node is reachable from some
  start node, the error is the one that names the first such node of the region; when
  some end node is reachable from no start node, it is the error that names such an end
  node and the start nodes. A list of nodes that the call returns holds no node with the
  op tag \<^verbatim>\<open>Placeholder\<close>.
\<close>

theorem C4_placeholder_boundary:
  "(\<forall>g start_nodes end_nodes ns visited prev.
      grown g start_nodes end_nodes = (ns, visited, prev) \<longrightarrow>
      (\<exists>n \<in> set ns. node_op g n = Some ''Placeholder'') \<longrightarrow>
      (\<exists>err. sub_graph_between_nodes g start_nodes end_nodes = Some (Inl err)) \<and>
      ((\<forall>e \<in> set end_nodes. \<exists>s \<in> set start_nodes. (s, e) \<in> (set (edges g))\<^sup>*) \<longrightarrow>
       (\<exists>n. find (\<lambda>n. node_op g n = Some ''Placeholder'') ns = Some n \<and>
          sub_graph_between_nodes g start_nodes end_nodes = Some (Inl (ContainsInputNode n)))) \<and>
      ((\<exists>e \<in> set end_nodes. \<forall>s \<in> set start_nodes. (s, e) \<notin> (set (edges g))\<^sup>*) \<longrightarrow>
       (\<exists>e \<in> set end_nodes. (\<forall>s \<in> set start_nodes. (s, e) \<notin> (set (edges g))\<^sup>*) \<and>
          sub_graph_between_nodes g start_nodes end_nodes =
            Some (Inl (EndNodeNotReachable e start_nodes))))) \<and>
   (\<forall>g start_nodes end_nodes ns.
      sub_graph_between_nodes g start_nodes end_nodes = Some (Inr ns) \<longrightarrow>
      (\<forall>n \<in> set ns. node_op g n \<noteq> Some ''Placeholder''))"
proof -
  have p1: "\<forall>g start_nodes end_nodes ns visited prev.
      grown g start_nodes end_nodes = (ns, visited, prev) \<longrightarrow>
      (\<exists>n \<in> set ns. node_op g n = Some ''Placeholder'') \<longrightarrow>
      (\<exists>err. sub_graph_between_nodes g start_nodes end_nodes = Some (Inl err)) \<and>
      ((\<forall>e \<in> set end_nodes. \<exists>s \<in> set start_nodes. (s, e) \<in> (set (edges g))\<^sup>*) \<longrightarrow>
       (\<exists>n. find (\<lambda>n. node_op g n = Some ''Placeholder'') ns = Some n \<and>
          sub_graph_between_nodes g start_nodes end_nodes = Some (Inl (ContainsInputNode n)))) \<and>
      ((\<exists>e \<in> set end_nodes. \<forall>s \<in> set start_nodes. (s, e) \<notin> (set (edges g))\<^sup>*) \<longrightarrow>
       (\<exists>e \<in> set end_nodes. (\<forall>s \<in> set start_nodes. (s, e) \<notin> (set (edges g))\<^sup>*) \<and>
          sub_graph_between_nodes g start_nodes end_nodes =
            Some (Inl (EndNodeNotReachable e start_nodes))))"
  proof (intro allI impI conjI)
    fix g :: graph and start_nodes end_nodes ns :: "node_id list" and visited
      and prev :: "node_id \<rightharpoonup> node_id"
    assume g: "grown g start_nodes end_nodes = (ns, visited, prev)"
      and p: "\<exists>n \<in> set ns. node_op g n = Some ''Placeholder''"
    show "\<exists>err. sub_graph_between_nodes g start_nodes end_nodes = Some (Inl err)"
      using sgbn_placeholder(1)[OF g p] .
    {
      assume "\<forall>e \<in> set end_nodes. \<exists>s \<in> set start_nodes. (s, e) \<in> (set (edges g))\<^sup>*"
      then show "\<exists>n. find (\<lambda>n. node_op g n = Some ''Placeholder'') ns = Some n \<and>
          sub_graph_between_nodes g start_nodes end_nodes = Some (Inl (ContainsInputNode n))"
        using sgbn_placeholder(2)[OF g p] by blast
    }
    {
      assume "\<exists>e \<in> set end_nodes. \<forall>s \<in> set start_nodes. (s, e) \<notin> (set (edges g))\<^sup>*"
      then show "\<exists>e \<in> set end_nodes. (\<forall>s \<in> set start_nodes. (s, e) \<notin> (set (edges g))\<^sup>*) \<and>
          sub_graph_between_nodes g start_nodes end_nodes =
            Some (Inl (EndNodeNotReachable e start_nodes))"
        by (rule sgbn_unreachable)
    }
  qed
  have p2: "\<forall>g start_nodes end_nodes ns.
      sub_graph_between_nodes g start_nodes end_nodes = Some (Inr ns) \<longrightarrow>
      (\<forall>n \<in> set ns. node_op g n \<noteq> Some ''Placeholder'')"
    using sgbn_result(2) by blast
  from p1 p2 show ?thesis ..
qed

theorem C4_placeholder_boundary_witness:
  "grown placeholder_input [''A''] [''B''] =
     ([''A'', ''B'', ''P''], {''A'', ''B'', ''P''}, [''B'' \<mapsto> ''A'', ''P'' \<mapsto> ''B'']) \<and>
   (\<exists>n \<in> set [''A'', ''B'', ''P'']. node_op placeholder_input n = Some ''Placeholder'') \<and>
   (''A'', ''B'') \<in> (set (edges placeholder_input))\<^sup>* \<and>
   find (\<lambda>n. node_op placeholder_input n = Some ''Placeholder'') [''A'', ''B'', ''P''] = Some ''P'' \<and>
   sub_graph_between_nodes placeholder_input [''A''] [''B''] = Some (Inl (ContainsInputNode ''P'')) \<and>
   grown placeholder_apart [''A''] [''B'', ''Z''] =
     ([''A'', ''B'', ''P''], {''A'', ''B'', ''P''}, [''B'' \<mapsto> ''A'', ''P'' \<mapsto> ''B'']) \<and>
   (\<exists>n \<in> set [''A'', ''B'', ''P'']. node_op placeholder_apart n = Some ''Placeholder'') \<and>
   (\<exists>e \<in> set [''B'', ''Z'']. \<forall>s \<in> set [''A'']. (s, e) \<notin> (set (edges placeholder_apart))\<^sup>*) \<and>
   (\<exists>e \<in> set [''B'', ''Z'']. (\<forall>s \<in> set [''A'']. (s, e) \<notin> (set (edges placeholder_apart))\<^sup>*) \<and>
      sub_graph_between_nodes placeholder_apart [''A''] [''B'', ''Z''] =
        Some (Inl (EndNodeNotReachable e [''A'']))) \<and>
   sub_graph_between_nodes chain4 [''A''] [''D''] = Some (Inr [''A'', ''B'', ''C'', ''D'']) \<and>
   node_op chain4 ''C'' \<noteq> Some ''Placeholder''"
proof -
  note bad = C4_placeholder_boundary[THEN conjunct1, rule_format]
    and good = C4_placeholder_boundary[THEN conjunct2, THEN spec, THEN spec, THEN spec, THEN spec, THEN mp]
  have h1: "\<exists>n \<in> set [''A'', ''B'', ''P'']. node_op placeholder_input n = Some ''Placeholder''"
    by (simp add: node_op_def placeholder_input_def op_node_def)
  have "(''A'', ''B'') \<in> set (edges placeholder_input)"
    by (simp add: placeholder_input_def)
  then have r0: "(''A'', ''B'') \<in> (set (edges placeholder_input))\<^sup>*" ..
  then have h2: "\<forall>e \<in> set [''B'']. \<exists>s \<in> set [''A'']. (s, e) \<in> (set (edges placeholder_input))\<^sup>*"
    by simp
  have f: "find (\<lambda>n. node_op placeholder_input n = Some ''Placeholder'') [''A'', ''B'', ''P''] = Some ''P''"
    by (simp add: node_op_def placeholder_input_def op_node_def)
  from bad[OF grown_placeholder_input h1, THEN conjunct2, THEN conjunct1, THEN mp, OF h2] f
  have e: "sub_graph_between_nodes placeholder_input [''A''] [''B''] = Some (Inl (ContainsInputNode ''P''))"
    by simp
  have h3: "\<exists>n \<in> set [''A'', ''B'', ''P'']. node_op placeholder_apart n = Some ''Placeholder''"
    by (simp add: node_op_def placeholder_apart_def op_node_def)
  have "''Z'' \<notin> forward_visited placeholder_apart [''A'']"
    by (simp add: fv_placeholder_apart)
  then have "\<forall>s \<in> set [''A'']. (s, ''Z'') \<notin> (set (edges placeholder_apart))\<^sup>*"
    by (simp add: forward_visited_reach reach_def)
  then have h4: "\<exists>e \<in> set [''B'', ''Z'']. \<forall>s \<in> set [''A'']. (s, e) \<notin> (set (edges placeholder_apart))\<^sup>*"
    by simp
  note u = bad[OF grown_placeholder_apart h3, THEN conjunct2, THEN conjunct2, THEN mp, OF h4]
  have r: "sub_graph_between_nodes chain4 [''A''] [''D''] = Some (Inr [''A'', ''B'', ''C'', ''D''])"
    by (rule sgbn_chain4)
  from good[OF r] have c: "node_op chain4 ''C'' \<noteq> Some ''Placeholder''" by simp
  from grown_placeholder_input h1 r0 f e grown_placeholder_apart h3 h4 u r c
  show ?thesis by (intro conjI)
qed

subsection \<open>Connectivity\<close>

text \<open>
  The undirected edges of the graph both of whose endpoints are among the given names.
\<close>

definition induced :: "graph \<Rightarrow> node_id list \<Rightarrow> (node_id \<times> node_id) set" where
  "induced g names =
     {(u, v). u \<in> set names \<and> v \<in> set names \<and>
              ((u, v) \<in> set (edges g) \<or> (v, u) \<in> set (edges g))}"

text \<open>One step of the expansion: from a node to an adjacent node among the names.\<close>

definition nbr :: "graph \<Rightarrow> node_id list \<Rightarrow> (node_id \<times> node_id) set" where
  "nbr g names = {(u, a). a \<in> set (adj_nodes g names u)}"

lemma set_adj_nodes:
  "set (adj_nodes g names cur) =
     {a. a \<in> set names \<and> ((a, cur) \<in> set (edges g) \<or> (cur, a) \<in> set (edges g))}"
  by (auto simp: adj_nodes_def in_edges_def out_edges_def intro: rev_image_eqI)

lemma fold_icc_add:
  "fold icc_add xs (d, v) = (d', v') \<Longrightarrow> v' = v \<union> set xs \<and> set d' = set d \<union> (set xs - v)"
proof (induction xs arbitrary: d v)
  case Nil
  then show ?case by simp
next
  case (Cons x xs)
  show ?case
  proof (cases "x \<in> v")
    case True
    with Cons.prems have "fold icc_add xs (d, v) = (d', v')" by simp
    from Cons.IH[OF this] True show ?thesis by auto
  next
    case False
    with Cons.prems have "fold icc_add xs (d @ [x], insert x v) = (d', v')" by simp
    from Cons.IH[OF this] False show ?thesis by auto
  qed
qed

lemma icc_loop_mono: "icc_loop g names (d, v) = r \<Longrightarrow> v \<union> set d \<subseteq> r"
proof (induction g names "(d, v)" arbitrary: d v rule: icc_loop.induct)
  case (1 g names visited)
  then show ?case by simp
next
  case (2 g names cur d visited)
  obtain d' v' where f: "fold icc_add (adj_nodes g names cur) (d, insert cur visited) = (d', v')"
    by (cases "fold icc_add (adj_nodes g names cur) (d, insert cur visited)")
  with "2.prems" have r: "icc_loop g names (d', v') = r" by simp
  from "2.hyps"[OF f r] fold_icc_add[OF f] show ?case by auto
qed

lemma icc_loop_sound:
  "icc_loop g names (d, v) = r \<Longrightarrow>
   r \<subseteq> v \<union> {x. \<exists>s \<in> set d. (s, x) \<in> (nbr g names)\<^sup>*}"
proof (induction g names "(d, v)" arbitrary: d v rule: icc_loop.induct)
  case (1 g names visited)
  then show ?case by simp
next
  case (2 g names cur d visited)
  obtain d' v' where f: "fold icc_add (adj_nodes g names cur) (d, insert cur visited) = (d', v')"
    by (cases "fold icc_add (adj_nodes g names cur) (d, insert cur visited)")
  with "2.prems" have r: "icc_loop g names (d', v') = r" by simp
  note IH = "2.hyps"[OF f r]
  note fa = fold_icc_add[OF f]
  show ?case
  proof
    fix x assume "x \<in> r"
    with IH have "x \<in> v' \<or> (\<exists>s \<in> set d'. (s, x) \<in> (nbr g names)\<^sup>*)" by blast
    then show "x \<in> visited \<union> {x. \<exists>s \<in> set (cur # d). (s, x) \<in> (nbr g names)\<^sup>*}"
    proof
      assume "x \<in> v'"
      with fa have "x \<in> visited \<or> x = cur \<or> x \<in> set (adj_nodes g names cur)" by auto
      then show ?thesis by (auto simp: nbr_def)
    next
      assume "\<exists>s \<in> set d'. (s, x) \<in> (nbr g names)\<^sup>*"
      then obtain s where s: "s \<in> set d'" "(s, x) \<in> (nbr g names)\<^sup>*" by blast
      from s(1) fa have "s \<in> set d \<or> s \<in> set (adj_nodes g names cur)" by auto
      then show ?thesis
      proof
        assume "s \<in> set d" with s(2) show ?thesis by auto
      next
        assume "s \<in> set (adj_nodes g names cur)"
        then have "(cur, s) \<in> nbr g names" by (simp add: nbr_def)
        then have "(cur, x) \<in> (nbr g names)\<^sup>*" using s(2) by (rule converse_rtrancl_into_rtrancl)
        then show ?thesis by auto
      qed
    qed
  qed
qed

lemma icc_loop_closed:
  "icc_loop g names (d, v) = r \<Longrightarrow>
   (\<forall>x \<in> v. x \<notin> set d \<longrightarrow> (nbr g names) `` {x} \<subseteq> v) \<Longrightarrow>
   (\<forall>x \<in> r. (nbr g names) `` {x} \<subseteq> r)"
proof (induction g names "(d, v)" arbitrary: d v rule: icc_loop.induct)
  case (1 g names visited)
  then show ?case by simp
next
  case (2 g names cur d visited)
  obtain d' v' where f: "fold icc_add (adj_nodes g names cur) (d, insert cur visited) = (d', v')"
    by (cases "fold icc_add (adj_nodes g names cur) (d, insert cur visited)")
  with "2.prems"(1) have r: "icc_loop g names (d', v') = r" by simp
  note fa = fold_icc_add[OF f]
  have "\<forall>x \<in> v'. x \<notin> set d' \<longrightarrow> (nbr g names) `` {x} \<subseteq> v'"
  proof (intro ballI impI)
    fix x assume x: "x \<in> v'" "x \<notin> set d'"
    show "(nbr g names) `` {x} \<subseteq> v'"
    proof (cases "x = cur")
      case True
      then show ?thesis using fa by (auto simp: nbr_def)
    next
      case False
      with x fa have "x \<in> visited" "x \<notin> set (cur # d)" by auto
      with "2.prems"(2) have "(nbr g names) `` {x} \<subseteq> visited" by blast
      with fa show ?thesis by auto
    qed
  qed
  from "2.hyps"[OF f r this] show ?case .
qed

lemma icc_loop_reach: "icc_loop g names ([first], {first}) = {x. (first, x) \<in> (nbr g names)\<^sup>*}"
proof -
  let ?r = "icc_loop g names ([first], {first})"
  have cl: "\<forall>x \<in> ?r. (nbr g names) `` {x} \<subseteq> ?r"
    by (rule icc_loop_closed[OF refl]) simp
  have f: "first \<in> ?r" using icc_loop_mono[OF refl, where g = g and names = names and d = "[first]" and v = "{first}"] by simp
  have "{x. (first, x) \<in> (nbr g names)\<^sup>*} \<subseteq> ?r"
  proof
    fix x assume "x \<in> {x. (first, x) \<in> (nbr g names)\<^sup>*}"
    then have "(first, x) \<in> (nbr g names)\<^sup>*" by simp
    then show "x \<in> ?r" using f cl by (induction rule: rtrancl_induct) auto
  qed
  moreover have "?r \<subseteq> {x. (first, x) \<in> (nbr g names)\<^sup>*}"
    using icc_loop_sound[OF refl, where g = g and names = names and d = "[first]" and v = "{first}"] by auto
  ultimately show ?thesis by blast
qed

lemma nbr_induced:
  assumes "first \<in> set names"
  shows "(first, x) \<in> (nbr g names)\<^sup>* \<longleftrightarrow> (first, x) \<in> (induced g names)\<^sup>*"
proof
  assume "(first, x) \<in> (nbr g names)\<^sup>*"
  then have "(first, x) \<in> (induced g names)\<^sup>* \<and> x \<in> set names"
  proof (induction rule: rtrancl_induct)
    case base
    then show ?case using assms by simp
  next
    case (step y z)
    from step.hyps(2) step.IH have "(y, z) \<in> induced g names" "z \<in> set names"
      by (auto simp: nbr_def induced_def set_adj_nodes)
    with step.IH show ?case by (auto intro: rtrancl_into_rtrancl)
  qed
  then show "(first, x) \<in> (induced g names)\<^sup>*" ..
next
  assume "(first, x) \<in> (induced g names)\<^sup>*"
  moreover have "induced g names \<subseteq> nbr g names"
    by (auto simp: nbr_def induced_def set_adj_nodes)
  ultimately show "(first, x) \<in> (nbr g names)\<^sup>*" using rtrancl_mono by blast
qed

lemma icc_iff:
  "is_connected_component g names \<longleftrightarrow>
     (case names of [] \<Rightarrow> True
      | first # _ \<Rightarrow> \<forall>x \<in> set names. (first, x) \<in> (induced g names)\<^sup>*)"
proof (cases names)
  case Nil
  then show ?thesis by (simp add: is_connected_component_def)
next
  case (Cons first rest)
  then have "first \<in> set names" by simp
  from nbr_induced[OF this] Cons show ?thesis
    by (auto simp: is_connected_component_def icc_loop_reach simp del: icc_loop.simps)
qed

lemma icc_chain3_AC: "\<not> is_connected_component chain3 [''A'', ''C'']"
  by (simp add: is_connected_component_def adj_nodes_def in_edges_def out_edges_def chain3_def)

lemma icc_chain3_ABC: "is_connected_component chain3 [''A'', ''B'', ''C'']"
  by (simp add: is_connected_component_def adj_nodes_def in_edges_def out_edges_def chain3_def)

text \<open>
  C7. \<^verbatim>\<open>is_connected_component\<close> returns true if and only if every one of the given names
  is reachable from the first of them along undirected edges both of whose endpoints are
  among the names. For the empty list it returns true. On the chain \<open>A \<rightarrow> B \<rightarrow> C\<close> it
  returns false for \<open>[A, C]\<close>.
\<close>

theorem C7_connected_component:
  "(is_connected_component g names \<longleftrightarrow>
      (case names of [] \<Rightarrow> True
       | first # _ \<Rightarrow> \<forall>x \<in> set names. (first, x) \<in> (induced g names)\<^sup>*)) \<and>
   is_connected_component g [] \<and>
   \<not> is_connected_component chain3 [''A'', ''C'']"
proof (intro conjI)
  show "is_connected_component g names \<longleftrightarrow>
      (case names of [] \<Rightarrow> True
       | first # _ \<Rightarrow> \<forall>x \<in> set names. (first, x) \<in> (induced g names)\<^sup>*)"
    by (rule icc_iff)
  show "is_connected_component g []"
    by (simp add: is_connected_component_def)
  show "\<not> is_connected_component chain3 [''A'', ''C'']"
    by (rule icc_chain3_AC)
qed

theorem C7_connected_component_witness:
  "is_connected_component chain3 [''A'', ''B'', ''C''] \<and>
   (''A'', ''C'') \<in> (induced chain3 [''A'', ''B'', ''C''])\<^sup>* \<and>
   \<not> is_connected_component chain3 [''A'', ''C''] \<and>
   \<not> (\<forall>x \<in> set [''A'', ''C'']. (''A'', x) \<in> (induced chain3 [''A'', ''C''])\<^sup>*)"
proof -
  note yes = C7_connected_component[of chain3 "[''A'', ''B'', ''C'']", THEN conjunct1]
    and no = C7_connected_component[of chain3 "[''A'', ''C'']", THEN conjunct1]
  from yes icc_chain3_ABC
  have 1: "(''A'', ''C'') \<in> (induced chain3 [''A'', ''B'', ''C''])\<^sup>*"
    by simp
  from no icc_chain3_AC
  have 2: "\<not> (\<forall>x \<in> set [''A'', ''C'']. (''A'', x) \<in> (induced chain3 [''A'', ''C''])\<^sup>*)"
    by simp
  from icc_chain3_ABC 1 icc_chain3_AC 2 show ?thesis by (intro conjI)
qed

lemma acyclic_diamond: "acyclic (set (edges diamond))"
proof (rule acyclicI_order[where f = "\<lambda>x. if x = ''A'' \<or> x = ''R'' then 2
      else if x = ''B'' \<or> x = ''C'' then 1 else (0::nat)"])
  fix a b assume "(a, b) \<in> set (edges diamond)"
  then show "(if b = ''A'' \<or> b = ''R'' then 2 else if b = ''B'' \<or> b = ''C'' then 1 else (0::nat))
      < (if a = ''A'' \<or> a = ''R'' then 2 else if a = ''B'' \<or> a = ''C'' then 1 else (0::nat))"
    by (auto simp: diamond_def)
qed

lemma wf_diamond: "wf_graph diamond"
  by (simp add: wf_graph_def node_names_def endpoints_def diamond_def)

text \<open>
  C5. On every acyclic graph (node names unique, every endpoint of an edge a node),
  \<^verbatim>\<open>pseudo_topological_sort\<close> with \<^verbatim>\<open>reverse=False\<close> returns every node of the graph
  exactly once, in an order in which, for every edge \<open>(u, v)\<close>, \<open>u\<close> stands before
  \<open>v\<close>.
\<close>

theorem C5_topological_order:
  assumes "wf_graph g" and "acyclic (set (edges g))"
  shows "distinct (pseudo_topological_sort g False) \<and>
         set (pseudo_topological_sort g False) = set (node_names g) \<and>
         (\<forall>(u, v) \<in> set (edges g). precedes u v (pseudo_topological_sort g False))"
  using pts_topological[OF assms] by (intro conjI)

theorem C5_topological_order_witness:
  "wf_graph diamond \<and> acyclic (set (edges diamond)) \<and>
   pseudo_topological_sort diamond False = [''A'', ''B'', ''R'', ''C'', ''D''] \<and>
   distinct [''A'', ''B'', ''R'', ''C'', ''D''] \<and>
   (''C'', ''D'') \<in> set (edges diamond) \<and>
   precedes ''C'' ''D'' [''A'', ''B'', ''R'', ''C'', ''D''] \<and>
   (''R'', ''C'') \<in> set (edges diamond) \<and>
   precedes ''R'' ''C'' [''A'', ''B'', ''R'', ''C'', ''D'']"
proof -
  note t = C5_topological_order[OF wf_diamond acyclic_diamond, unfolded pts_diamond]
  have e1: "(''C'', ''D'') \<in> set (edges diamond)" and e2: "(''R'', ''C'') \<in> set (edges diamond)"
    by (simp_all add: diamond_def)
  from t have b: "\<forall>(u, v) \<in> set (edges diamond). precedes u v [''A'', ''B'', ''R'', ''C'', ''D'']"
    by (elim conjE)
  from b e1 have p1: "precedes ''C'' ''D'' [''A'', ''B'', ''R'', ''C'', ''D'']" by blast
  from b e2 have p2: "precedes ''R'' ''C'' [''A'', ''B'', ''R'', ''C'', ''D'']" by blast
  from wf_diamond acyclic_diamond pts_diamond t[THEN conjunct1] e1 p1 e2 p2
  show ?thesis by (intro conjI)
qed

lemma nn_diamond_1:
  "node_outcoming_neighbourhood diamond ''A'' 1 = Some (Inr [''A'', ''B'', ''C''])"
  by (simp add: node_outcoming_neighbourhood_def node_neighbourhood_def nn_loop.simps
      setdefault_def out_edges_def diamond_def)

lemma nn_diamond_2:
  "node_outcoming_neighbourhood diamond ''A'' 2 = Some (Inr [''A'', ''B'', ''C'', ''D''])"
  by (simp add: node_outcoming_neighbourhood_def node_neighbourhood_def nn_loop.simps
      setdefault_def out_edges_def diamond_def)

text \<open>
  C9. For every start node, depth and neighbour function, \<^verbatim>\<open>node_neighbourhood\<close> returns,
  without repetitions, exactly the nodes within \<open>depth\<close> steps of the neighbour function
  from the start node. With depth 0 it returns exactly the start node. For a fixed start
  node and neighbour function the result for a smaller depth is contained in the result
  for a larger one, so the size of the result does not decrease as the depth increases.
\<close>

theorem C9_neighbourhood_monotone:
  "(\<exists>r. node_neighbourhood n depth f = Some (Inr r) \<and> distinct r \<and>
        set r = ball f n (nat depth)) \<and>
   node_neighbourhood n 0 f = Some (Inr [n]) \<and>
   (\<forall>d1 d2 r1 r2. d1 \<le> d2 \<longrightarrow>
      node_neighbourhood n d1 f = Some (Inr r1) \<longrightarrow>
      node_neighbourhood n d2 f = Some (Inr r2) \<longrightarrow>
      length r1 \<le> length r2 \<and> set r1 \<subseteq> set r2)"
proof -
  have mono: "\<forall>d1 d2 r1 r2. d1 \<le> d2 \<longrightarrow>
      node_neighbourhood n d1 f = Some (Inr r1) \<longrightarrow>
      node_neighbourhood n d2 f = Some (Inr r2) \<longrightarrow>
      length r1 \<le> length r2 \<and> set r1 \<subseteq> set r2"
  proof (intro allI impI)
    fix d1 d2 :: int and r1 r2
    assume le: "d1 \<le> d2"
      and n1: "node_neighbourhood n d1 f = Some (Inr r1)"
      and n2: "node_neighbourhood n d2 f = Some (Inr r2)"
    from node_neighbourhood_ball[of n d1 f] n1
    have r1: "distinct r1" "set r1 = ball f n (nat d1)" by auto
    from node_neighbourhood_ball[of n d2 f] n2
    have r2: "distinct r2" "set r2 = ball f n (nat d2)" by auto
    have sub: "set r1 \<subseteq> set r2" using r1(2) r2(2) le ball_mono[of "nat d1" "nat d2"] by auto
    then have "card (set r1) \<le> card (set r2)" by (intro card_mono) simp_all
    then have "length r1 \<le> length r2" using r1(1) r2(1) by (simp add: distinct_card)
    then show "length r1 \<le> length r2 \<and> set r1 \<subseteq> set r2" using sub ..
  qed
  from node_neighbourhood_ball[of n depth f] node_neighbourhood_0[of n f] mono
  show ?thesis by (intro conjI)
qed

theorem C9_neighbourhood_monotone_witness:
  "(1::int) \<le> 2 \<and>
   node_neighbourhood ''A'' 1 (\<lambda>node_name. map snd (out_edges diamond node_name)) =
     Some (Inr [''A'', ''B'', ''C'']) \<and>
   node_neighbourhood ''A'' 2 (\<lambda>node_name. map snd (out_edges diamond node_name)) =
     Some (Inr [''A'', ''B'', ''C'', ''D'']) \<and>
   length [''A'', ''B'', ''C''] \<le> length [''A'', ''B'', ''C'', ''D''] \<and>
   set [''A'', ''B'', ''C''] \<subseteq> set [''A'', ''B'', ''C'', ''D'']"
proof -
  let ?f = "\<lambda>node_name. map snd (out_edges diamond node_name)"
  have le: "(1::int) \<le> 2" by simp
  have n1: "node_neighbourhood ''A'' 1 ?f = Some (Inr [''A'', ''B'', ''C''])"
    using nn_diamond_1 by (simp add: node_outcoming_neighbourhood_def)
  have n2: "node_neighbourhood ''A'' 2 ?f = Some (Inr [''A'', ''B'', ''C'', ''D''])"
    using nn_diamond_2 by (simp add: node_outcoming_neighbourhood_def)
  note m = C9_neighbourhood_monotone[of "''A''" 0 ?f, THEN conjunct2, THEN conjunct2, rule_format,
      OF le n1 n2]
  from le n1 n2 m[THEN conjunct1] m[THEN conjunct2] show ?thesis by (intro conjI)
qed

end
